theory Spec2Isabelle
  imports Complex_Main "HOL-Library.Word" "HOL-Library.Stream" "HOL-Library.Char_ord"
    "HOL-Library.List_Lexorder"
begin

section \<open>The widgets of the site, as functions\<close>

text \<open>
  The browser-side widgets of the site: the IndexedDB backup and restore helper
  (\<open>IndexedDBBackupRestore\<close>), the drag-and-drop image store (\<open>DroppableImageTarget\<close>) and
  the dot canvas (\<open>DotCanvas\<close>). Each method is a function from the state it reads to its
  result and the state it leaves. The browser interfaces the methods call (IndexedDB, JSON,
  \<open>FileReader\<close>, \<open>atob\<close>, \<open>Blob\<close>, \<open>Math.random\<close>) are modelled after their
  standards, as far as the methods use them.
\<close>

subsection \<open>JavaScript values\<close>

text \<open>
  The values the widgets store and exchange. A \<open>Blob\<close> is its bytes and its MIME type; a
  \<open>File\<close> is a Blob that also has a name. Numbers are the integers (the safe-integer range
  of a JavaScript number; fractions, \<open>NaN\<close> and the infinities are outside the model). A
  \<open>Date\<close> is a valid time value in milliseconds since the epoch. An object is the list of its
  own enumerable properties in the order in which the language enumerates them: the names
  that are array indices first, in ascending numeric order, then the other names in the
  order of their creation. \<open>set_property\<close> below keeps that order.
\<close>

type_synonym byte = "8 word"

record blob =
  blob_bytes :: "byte list"
  blob_type :: string
  blob_name :: "string option"

datatype jsval =
    VUndefined
  | VNull
  | VBool bool
  | VNum int
  | VStr string
  | VDate int
  | VBlob blob
  | VArr "jsval list"
  | VObj "(string \<times> jsval) list"

text \<open>What a \<open>throw\<close> or a \<open>reject\<close> carries: an \<open>Error\<close> with its message, a
  \<open>TypeError\<close>, a \<open>DOMException\<close> with its name, or (as \<open>_openDB\<close> does) a plain string.\<close>

datatype thrown =
    ErrorObj string
  | TypeErrorObj string
  | DOMException string
  | Reason string

text \<open>The state a promise ends in. \<open>Pending\<close> is a promise that is never settled: neither
  \<open>resolve\<close> nor \<open>reject\<close> is ever called, so an \<open>await\<close> on it never continues.\<close>

datatype 'a outcome = Fulfilled 'a | Rejected thrown | Pending

datatype level = Log | Warn | Err

type_synonym console_log = "(level \<times> string) list"

text \<open>\<open>error.message\<close> inside a template string: a rejection with a plain string has no
  \<open>message\<close> property. The message of an engine exception is represented by its name.\<close>

fun message_of :: "thrown \<Rightarrow> string" where
  "message_of (ErrorObj m) = m"
| "message_of (TypeErrorObj m) = m"
| "message_of (DOMException n) = n"
| "message_of (Reason s) = ''undefined''"

fun truthy :: "jsval \<Rightarrow> bool" where
  "truthy VUndefined = False"
| "truthy VNull = False"
| "truthy (VBool b) = b"
| "truthy (VNum n) = (n \<noteq> 0)"
| "truthy (VStr s) = (s \<noteq> [])"
| "truthy _ = True"

fun typeof_object :: "jsval \<Rightarrow> bool" where
  "typeof_object VNull = True"
| "typeof_object (VDate t) = True"
| "typeof_object (VBlob b) = True"
| "typeof_object (VArr xs) = True"
| "typeof_object (VObj ps) = True"
| "typeof_object _ = False"

definition nth_opt :: "'a list \<Rightarrow> nat \<Rightarrow> 'a option" where
  "nth_opt xs i = (if i < length xs then Some (xs ! i) else None)"

text \<open>Replacing or adding an entry of a list of pairs: an existing entry keeps its place, a
  new one is added at the end.\<close>

fun alist_set :: "'k \<Rightarrow> 'v \<Rightarrow> ('k \<times> 'v) list \<Rightarrow> ('k \<times> 'v) list" where
  "alist_set k v [] = [(k, v)]"
| "alist_set k v ((k', v') # ps) =
     (if k = k' then (k, v) # ps else (k', v') # alist_set k v ps)"

fun index_of :: "'a \<Rightarrow> 'a list \<Rightarrow> nat option" where
  "index_of c [] = None"
| "index_of c (x # xs) = (if c = x then Some 0 else map_option Suc (index_of c xs))"

subsubsection \<open>Decimal numerals\<close>

definition digit_char :: "nat \<Rightarrow> char" where
  "digit_char d = ''0123456789'' ! (d mod 10)"

fun show_nat_fuel :: "nat \<Rightarrow> nat \<Rightarrow> string" where
  "show_nat_fuel 0 n = [digit_char n]"
| "show_nat_fuel (Suc f) n =
     (if n < 10 then [digit_char n] else show_nat_fuel f (n div 10) @ [digit_char n])"

definition show_nat :: "nat \<Rightarrow> string" where
  "show_nat n = show_nat_fuel n n"

definition show_int :: "int \<Rightarrow> string" where
  "show_int i = (if i < 0 then CHR ''-'' # show_nat (nat (- i)) else show_nat (nat i))"

text \<open>A number with leading zeros, \<open>w\<close> digits wide.\<close>

fun pad_nat :: "nat \<Rightarrow> nat \<Rightarrow> string" where
  "pad_nat 0 n = []"
| "pad_nat (Suc w) n = pad_nat w (n div 10) @ [digit_char n]"

definition indices :: "nat \<Rightarrow> string list" where
  "indices n = map show_nat [0..<n]"

subsubsection \<open>The order of the properties of an object\<close>

text \<open>
  A property name is an array index when it is the decimal numeral of an integer from 0 to
  \<open>2^32 - 2\<close>, as the language prints it. Property assignment \<open>o[k] = v\<close>: an existing
  property keeps its place; a new array index goes among the array indices, in numeric order;
  any other new name goes to the end.
\<close>

definition digit_value :: "char \<Rightarrow> nat option" where
  "digit_value c = index_of c ''0123456789''"

definition array_index :: "string \<Rightarrow> int option" where
  "array_index s =
     (case those (map digit_value s) of
        None \<Rightarrow> None
      | Some ds \<Rightarrow>
          (let n = foldl (\<lambda>a d. 10 * a + int d) 0 ds
           in if ds \<noteq> [] \<and> n < 4294967295 \<and> show_int n = s then Some n else None))"

fun insert_index :: "int \<Rightarrow> string \<times> 'v \<Rightarrow> (string \<times> 'v) list \<Rightarrow> (string \<times> 'v) list" where
  "insert_index i p [] = [p]"
| "insert_index i p (q # qs) =
     (case array_index (fst q) of
        Some j \<Rightarrow> if j < i then q # insert_index i p qs else p # q # qs
      | None \<Rightarrow> p # q # qs)"

definition set_property :: "string \<Rightarrow> 'v \<Rightarrow> (string \<times> 'v) list \<Rightarrow> (string \<times> 'v) list" where
  "set_property k v ps =
     (if k \<in> set (map fst ps) then alist_set k v ps
      else case array_index k of
             None \<Rightarrow> ps @ [(k, v)]
           | Some i \<Rightarrow> insert_index i (k, v) ps)"

text \<open>The names of an object are in enumeration order: an array index comes before every
  larger array index and before every other name.\<close>

definition precedes :: "string \<Rightarrow> string \<Rightarrow> bool" where
  "precedes k k' =
     (case array_index k of
        None \<Rightarrow> array_index k' = None
      | Some i \<Rightarrow> (case array_index k' of None \<Rightarrow> True | Some j \<Rightarrow> i < j))"

definition own_property_order :: "string list \<Rightarrow> bool" where
  "own_property_order ks = sorted_wrt precedes ks"

text \<open>A name between single quotes, as the messages of the widgets show it.\<close>

definition quoted :: "string \<Rightarrow> string" where
  "quoted s = [CHR 0x27] @ s @ [CHR 0x27]"

subsubsection \<open>Reading properties and enumerating them\<close>

text \<open>\<open>v[k]\<close> for a property name \<open>k\<close>: an own property of an object, an element of an
  array, a character of a string, the \<open>length\<close> of an array or a string; \<open>undefined\<close>
  otherwise.\<close>

fun index_lookup :: "string \<Rightarrow> 'a list \<Rightarrow> 'a option" where
  "index_lookup k xs = map_of (zip (indices (length xs)) xs) k"

fun get_prop :: "jsval \<Rightarrow> string \<Rightarrow> jsval" where
  "get_prop (VObj ps) k = (case map_of ps k of Some v \<Rightarrow> v | None \<Rightarrow> VUndefined)"
| "get_prop (VArr xs) k =
     (if k = ''length'' then VNum (int (length xs))
      else case index_lookup k xs of Some v \<Rightarrow> v | None \<Rightarrow> VUndefined)"
| "get_prop (VStr s) k =
     (if k = ''length'' then VNum (int (length s))
      else case index_lookup k s of Some c \<Rightarrow> VStr [c] | None \<Rightarrow> VUndefined)"
| "get_prop _ k = VUndefined"

text \<open>The names a \<open>for (const k in v)\<close> loop visits, which for the values here are the own
  enumerable property names that \<open>Object.keys\<close> and the spread \<open>{...v}\<close> use as well, in
  enumeration order (the order of the list of properties).\<close>

fun for_in_keys :: "jsval \<Rightarrow> string list" where
  "for_in_keys (VObj ps) = map fst ps"
| "for_in_keys (VArr xs) = indices (length xs)"
| "for_in_keys (VStr s) = indices (length s)"
| "for_in_keys _ = []"

text \<open>\<open>Object.keys(v)\<close> throws a TypeError on \<open>undefined\<close> and \<open>null\<close>.\<close>

fun Object_keys :: "jsval \<Rightarrow> thrown + string list" where
  "Object_keys VUndefined = Inl (TypeErrorObj ''Cannot convert undefined or null to object'')"
| "Object_keys VNull = Inl (TypeErrorObj ''Cannot convert undefined or null to object'')"
| "Object_keys v = Inr (for_in_keys v)"

text \<open>The object literal \<open>{ ...v }\<close>: a new plain object with the own enumerable
  properties of \<open>v\<close>.\<close>

fun spread :: "jsval \<Rightarrow> (string \<times> jsval) list" where
  "spread (VObj ps) = ps"
| "spread (VArr xs) = zip (indices (length xs)) xs"
| "spread (VStr s) = zip (indices (length s)) (map (\<lambda>c. VStr [c]) s)"
| "spread _ = []"

text \<open>The values a \<open>for (let x of v)\<close> loop visits; a value that is not iterable throws a
  TypeError.\<close>

fun for_of_items :: "jsval \<Rightarrow> thrown + jsval list" where
  "for_of_items (VArr xs) = Inr xs"
| "for_of_items (VStr s) = Inr (map (\<lambda>c. VStr [c]) s)"
| "for_of_items _ = Inl (TypeErrorObj ''itemsToRestore is not iterable'')"

text \<open>\<open>String(v)\<close>, as the \<open>Blob\<close> constructor applies it to its \<open>type\<close> option. (The
  text of a Date is the engine's local-time rendering and is not modelled; no Date reaches
  this function from parsed JSON.)\<close>

fun ToString :: "jsval \<Rightarrow> string"
  and join_comma :: "jsval list \<Rightarrow> string" where
  "ToString VUndefined = ''undefined''"
| "ToString VNull = ''null''"
| "ToString (VBool b) = (if b then ''true'' else ''false'')"
| "ToString (VNum n) = show_int n"
| "ToString (VStr s) = s"
| "ToString (VDate t) = ''[object Date]''"
| "ToString (VBlob b) = (if blob_name b = None then ''[object Blob]'' else ''[object File]'')"
| "ToString (VArr xs) = join_comma xs"
| "ToString (VObj ps) = ''[object Object]''"
| "join_comma [] = []"
| "join_comma [x] = (case x of VUndefined \<Rightarrow> [] | VNull \<Rightarrow> [] | _ \<Rightarrow> ToString x)"
| "join_comma (x # y # ys) =
     (case x of VUndefined \<Rightarrow> [] | VNull \<Rightarrow> [] | _ \<Rightarrow> ToString x) @ '','' @ join_comma (y # ys)"

subsection \<open>Base64, data URLs and Blobs\<close>

definition b64_alphabet :: string where
  "b64_alphabet = ''ABCDEFGHIJKLMNOPQRSTUVWXYZabcdefghijklmnopqrstuvwxyz0123456789+/''"

definition b64_char :: "nat \<Rightarrow> char" where
  "b64_char n = b64_alphabet ! n"

definition b64_value :: "char \<Rightarrow> nat option" where
  "b64_value c = index_of c b64_alphabet"

text \<open>The base64 text of a byte sequence (RFC 4648, with padding), as
  \<open>FileReader.readAsDataURL\<close> produces it.\<close>

fun base64 :: "byte list \<Rightarrow> string" where
  "base64 [] = []"
| "base64 [a] =
     [b64_char (unat a div 4), b64_char ((unat a mod 4) * 16), CHR ''='', CHR ''='']"
| "base64 [a, b] =
     [b64_char (unat a div 4), b64_char ((unat a mod 4) * 16 + unat b div 16),
      b64_char ((unat b mod 16) * 4), CHR ''='']"
| "base64 (a # b # c # rest) =
     [b64_char (unat a div 4), b64_char ((unat a mod 4) * 16 + unat b div 16),
      b64_char ((unat b mod 16) * 4 + unat c div 64), b64_char (unat c mod 64)] @ base64 rest"

text \<open>The 6-bit groups of a byte sequence, which the characters of its base64 text stand
  for.\<close>

fun sextets :: "byte list \<Rightarrow> nat list" where
  "sextets [] = []"
| "sextets [a] = [unat a div 4, (unat a mod 4) * 16]"
| "sextets [a, b] = [unat a div 4, (unat a mod 4) * 16 + unat b div 16, (unat b mod 16) * 4]"
| "sextets (a # b # c # rest) =
     [unat a div 4, (unat a mod 4) * 16 + unat b div 16,
      (unat b mod 16) * 4 + unat c div 64, unat c mod 64] @ sextets rest"

text \<open>\<open>reader.readAsDataURL(file)\<close>: the data URL of a Blob. A Blob with no type is given
  \<open>application/octet-stream\<close>.\<close>

definition readAsDataURL :: "blob \<Rightarrow> string" where
  "readAsDataURL b =
     ''data:'' @ (if blob_type b = [] then ''application/octet-stream'' else blob_type b)
       @ '';base64,'' @ base64 (blob_bytes b)"

text \<open>\<open>atob\<close>: the forgiving base64 decoder of the HTML standard. ASCII whitespace is
  removed; if the length is then a multiple of four, one or two trailing \<open>=\<close> are removed; a
  length that is 1 modulo 4, or a character outside the alphabet, is an error; left-over bits
  are dropped. The result is a binary string, one byte per character.\<close>

definition is_ascii_whitespace :: "char \<Rightarrow> bool" where
  "is_ascii_whitespace c = (c \<in> set [CHR 0x09, CHR 0x0A, CHR 0x0C, CHR 0x0D, CHR 0x20])"

definition strip_padding :: "string \<Rightarrow> string" where
  "strip_padding s =
     (if 2 \<le> length s \<and> drop (length s - 2) s = ''=='' then take (length s - 2) s
      else if 1 \<le> length s \<and> drop (length s - 1) s = ''='' then take (length s - 1) s
      else s)"

fun decode_sextets :: "nat list \<Rightarrow> byte list" where
  "decode_sextets (w # x # y # z # rest) =
     [of_nat (w * 4 + x div 16), of_nat ((x mod 16) * 16 + y div 4), of_nat ((y mod 4) * 64 + z)]
       @ decode_sextets rest"
| "decode_sextets [w, x, y] = [of_nat (w * 4 + x div 16), of_nat ((x mod 16) * 16 + y div 4)]"
| "decode_sextets [w, x] = [of_nat (w * 4 + x div 16)]"
| "decode_sextets _ = []"

definition atob :: "string \<Rightarrow> byte list option" where
  "atob data =
     (let d1 = filter (\<lambda>c. \<not> is_ascii_whitespace c) data;
          d2 = (if length d1 mod 4 = 0 then strip_padding d1 else d1)
      in if length d2 mod 4 = 1 then None
         else case those (map b64_value d2) of
                None \<Rightarrow> None
              | Some vs \<Rightarrow> Some (decode_sextets vs))"

text \<open>\<open>s.split(',')\<close>.\<close>

fun split_on :: "char \<Rightarrow> string \<Rightarrow> string list" where
  "split_on c [] = [[]]"
| "split_on c (x # xs) =
     (if x = c then [] # split_on c xs
      else case split_on c xs of p # ps \<Rightarrow> (x # p) # ps | [] \<Rightarrow> [[x]])"

text \<open>The \<open>type\<close> a \<open>new Blob(parts, {type})\<close> gets: the empty string when the option is
  absent or has a character outside U+0020 to U+007E, its ASCII lowercase otherwise.\<close>

definition ascii_lower :: "char \<Rightarrow> char" where
  "ascii_lower c =
     (if (65::nat) \<le> of_char c \<and> of_char c \<le> (90::nat)
      then char_of (of_char c + (32::nat)) else c)"

definition blob_type_of :: "jsval \<Rightarrow> string" where
  "blob_type_of t =
     (case t of
        VUndefined \<Rightarrow> []
      | _ \<Rightarrow> (let s = ToString t
              in if list_all (\<lambda>c. (32::nat) \<le> of_char c \<and> of_char c \<le> (126::nat)) s
                 then map ascii_lower s else []))"

subsection \<open>JSON\<close>

text \<open>
  A JSON text is represented by the document it denotes; \<open>JSON.stringify\<close> and
  \<open>JSON.parse\<close> are the platform's, and their layout of the text (the indentation asked
  for by \<open>JSON.stringify(v, null, 2)\<close>, escapes) is not modelled. A string that is not a
  JSON text is \<open>Malformed\<close>.
\<close>

datatype json =
    JNull
  | JBool bool
  | JNum int
  | JStr string
  | JArr "json list"
  | JObj "(string \<times> json) list"

datatype jsontext = Document json | Malformed string

subsubsection \<open>Date.prototype.toISOString\<close>

text \<open>The civil date of a day number (days since 1970-01-01), in the proleptic Gregorian
  calendar.\<close>

definition civil_from_days :: "int \<Rightarrow> int \<times> nat \<times> nat" where
  "civil_from_days z0 =
     (let z = z0 + 719468;
          era = z div 146097;
          doe = z - era * 146097;
          yoe = (doe - doe div 1460 + doe div 36524 - doe div 146096) div 365;
          doy = doe - (365 * yoe + yoe div 4 - yoe div 100);
          mp = (5 * doy + 2) div 153;
          d = doy - (153 * mp + 2) div 5 + 1;
          m = (if mp < 10 then mp + 3 else mp - 9);
          y = yoe + era * 400 + (if m \<le> 2 then 1 else 0)
      in (y, nat m, nat d))"

definition show_year :: "int \<Rightarrow> string" where
  "show_year y =
     (if 0 \<le> y \<and> y \<le> 9999 then pad_nat 4 (nat y)
      else if y < 0 then CHR ''-'' # pad_nat 6 (nat (- y))
      else CHR ''+'' # pad_nat 6 (nat y))"

definition toISOString :: "int \<Rightarrow> string" where
  "toISOString t =
     (let (y, m, d) = civil_from_days (t div 86400000);
          ms = t mod 86400000
      in show_year y @ ''-'' @ pad_nat 2 m @ ''-'' @ pad_nat 2 d @ ''T''
           @ pad_nat 2 (nat (ms div 3600000)) @ '':'' @ pad_nat 2 (nat (ms div 60000 mod 60))
           @ '':'' @ pad_nat 2 (nat (ms div 1000 mod 60)) @ ''.'' @ pad_nat 3 (nat (ms mod 1000))
           @ ''Z'')"

subsubsection \<open>JSON.stringify and JSON.parse\<close>

text \<open>
  \<open>JSON.stringify\<close>: \<open>undefined\<close> has no JSON text (a property holding it is left out, an
  array element holding it becomes \<open>null\<close>); a Date is written as the string its \<open>toJSON\<close>
  gives; a Blob or File has no enumerable property of its own and is written as \<open>{}\<close>.
\<close>

fun to_json :: "jsval \<Rightarrow> json option"
  and to_json_elems :: "jsval list \<Rightarrow> json list"
  and to_json_props :: "(string \<times> jsval) list \<Rightarrow> (string \<times> json) list" where
  "to_json VUndefined = None"
| "to_json VNull = Some JNull"
| "to_json (VBool b) = Some (JBool b)"
| "to_json (VNum n) = Some (JNum n)"
| "to_json (VStr s) = Some (JStr s)"
| "to_json (VDate t) = Some (JStr (toISOString t))"
| "to_json (VBlob b) = Some (JObj [])"
| "to_json (VArr xs) = Some (JArr (to_json_elems xs))"
| "to_json (VObj ps) = Some (JObj (to_json_props ps))"
| "to_json_elems [] = []"
| "to_json_elems (x # xs) =
     (case to_json x of None \<Rightarrow> JNull | Some j \<Rightarrow> j) # to_json_elems xs"
| "to_json_props [] = []"
| "to_json_props (p # ps) =
     (case to_json (snd p) of
        None \<Rightarrow> to_json_props ps
      | Some j \<Rightarrow> (fst p, j) # to_json_props ps)"

definition JSON_stringify :: "jsval \<Rightarrow> jsontext option" where
  "JSON_stringify v = map_option Document (to_json v)"

text \<open>\<open>JSON.parse\<close>: the value a document denotes. The members of an object are assigned
  one after the other: a name that occurs twice keeps its first place and its last value.\<close>

fun json_value :: "json \<Rightarrow> jsval"
  and json_props :: "(string \<times> jsval) list \<Rightarrow> (string \<times> json) list \<Rightarrow> (string \<times> jsval) list" where
  "json_value JNull = VNull"
| "json_value (JBool b) = VBool b"
| "json_value (JNum n) = VNum n"
| "json_value (JStr s) = VStr s"
| "json_value (JArr xs) = VArr (map json_value xs)"
| "json_value (JObj ps) = VObj (json_props [] ps)"
| "json_props acc [] = acc"
| "json_props acc (p # ps) = json_props (set_property (fst p) (json_value (snd p)) acc) ps"

fun JSON_parse :: "jsontext \<Rightarrow> jsval option" where
  "JSON_parse (Document j) = Some (json_value j)"
| "JSON_parse (Malformed s) = None"

subsection \<open>IndexedDB\<close>

text \<open>
  The browser's database, as far as the widgets use it. A key is a number, a date or a
  string, ordered as the Indexed Database standard orders them (numbers before dates before
  strings); binary and array keys are not modelled. An object store has an optional key path
  (a single property name), an optional key generator, and its records. A cursor visits the
  records in ascending key order.
\<close>

datatype idbkey = KNum int | KDate int | KStr string

instantiation idbkey :: linorder
begin

fun less_eq_idbkey :: "idbkey \<Rightarrow> idbkey \<Rightarrow> bool" where
  "less_eq_idbkey (KNum a) (KNum b) = (a \<le> b)"
| "less_eq_idbkey (KNum a) (KDate b) = True"
| "less_eq_idbkey (KNum a) (KStr b) = True"
| "less_eq_idbkey (KDate a) (KNum b) = False"
| "less_eq_idbkey (KDate a) (KDate b) = (a \<le> b)"
| "less_eq_idbkey (KDate a) (KStr b) = True"
| "less_eq_idbkey (KStr a) (KNum b) = False"
| "less_eq_idbkey (KStr a) (KDate b) = False"
| "less_eq_idbkey (KStr a) (KStr b) = (a \<le> b)"

definition less_idbkey :: "idbkey \<Rightarrow> idbkey \<Rightarrow> bool" where
  "less_idbkey a b = (a \<le> b \<and> \<not> b \<le> a)"

instance
proof
  fix x y z :: idbkey
  show "(x < y) = (x \<le> y \<and> \<not> y \<le> x)" by (simp add: less_idbkey_def)
  show "x \<le> x" by (cases x) simp_all
  show "x \<le> y \<Longrightarrow> y \<le> z \<Longrightarrow> x \<le> z"
    by (cases x; cases y; cases z) simp_all
  show "x \<le> y \<Longrightarrow> y \<le> x \<Longrightarrow> x = y"
    by (cases x; cases y) simp_all
  show "x \<le> y \<or> y \<le> x"
    by (cases x; cases y) auto
qed

end

text \<open>Converting a value to a key: only numbers, dates and strings are keys.\<close>

fun key_of :: "jsval \<Rightarrow> idbkey option" where
  "key_of (VNum n) = Some (KNum n)"
| "key_of (VDate t) = Some (KDate t)"
| "key_of (VStr s) = Some (KStr s)"
| "key_of _ = None"

record objstore =
  keyPath :: "string option"
  autoIncrement :: bool
  keyGenerator :: nat
  records :: "(idbkey \<times> jsval) list"

record database =
  db_version :: nat
  objectStores :: "(string \<times> objstore) list"

type_synonym indexedDB = "(string \<times> database) list"

text \<open>Extracting a key from a value with a key path: the property is absent (or
  \<open>undefined\<close>), or it holds something that is not a key, or it holds a key. Arrays and
  strings have the special property \<open>length\<close>, Blobs \<open>size\<close> and \<open>type\<close>, Files \<open>name\<close>.\<close>

datatype extracted = NoKey | InvalidKey | Key idbkey

fun extract_key :: "string \<Rightarrow> jsval \<Rightarrow> extracted" where
  "extract_key kp (VObj ps) =
     (case map_of ps kp of
        None \<Rightarrow> NoKey
      | Some VUndefined \<Rightarrow> NoKey
      | Some v \<Rightarrow> (case key_of v of None \<Rightarrow> InvalidKey | Some k \<Rightarrow> Key k))"
| "extract_key kp (VArr xs) = (if kp = ''length'' then Key (KNum (int (length xs))) else NoKey)"
| "extract_key kp (VStr s) = (if kp = ''length'' then Key (KNum (int (length s))) else NoKey)"
| "extract_key kp (VBlob b) =
     (if kp = ''size'' then Key (KNum (int (length (blob_bytes b))))
      else if kp = ''type'' then Key (KStr (blob_type b))
      else if kp = ''name'' then (case blob_name b of Some n \<Rightarrow> Key (KStr n) | None \<Rightarrow> NoKey)
      else NoKey)"
| "extract_key kp _ = NoKey"

text \<open>A generated key can be injected only into an object (in the sense of the language:
  plain objects, arrays, dates, blobs). Injected into a plain object it becomes the property
  at the key path; a property injected into an array, a date or a blob is not part of what
  \<open>jsval\<close> represents of it.\<close>

fun can_inject :: "jsval \<Rightarrow> bool" where
  "can_inject (VObj ps) = True"
| "can_inject (VArr xs) = True"
| "can_inject (VDate t) = True"
| "can_inject (VBlob b) = True"
| "can_inject _ = False"

fun inject_key :: "string \<Rightarrow> nat \<Rightarrow> jsval \<Rightarrow> jsval" where
  "inject_key kp k (VObj ps) = VObj (set_property kp (VNum (int k)) ps)"
| "inject_key kp k v = v"

text \<open>An explicit numeric key at or above the generator's current number moves the
  generator past it.\<close>

fun bump_generator :: "idbkey \<Rightarrow> objstore \<Rightarrow> objstore" where
  "bump_generator (KNum n) os =
     (if autoIncrement os \<and> int (keyGenerator os) \<le> n
      then os\<lparr>keyGenerator := nat n + 1\<rparr> else os)"
| "bump_generator k os = os"

text \<open>
  Giving an item its key, as \<open>put\<close> and \<open>add\<close> do when called with no key argument: the
  key found at the key path, or a generated key. The call throws a \<open>DataError\<close> when the
  store has no way to give the item a key.
\<close>

definition assign_key :: "objstore \<Rightarrow> jsval \<Rightarrow> thrown + (idbkey \<times> jsval \<times> objstore)" where
  "assign_key os item =
     (case keyPath os of
        None \<Rightarrow>
          if autoIncrement os
          then Inr (KNum (int (keyGenerator os)), item, os\<lparr>keyGenerator := keyGenerator os + 1\<rparr>)
          else Inl (DOMException ''DataError'')
      | Some kp \<Rightarrow>
          (case extract_key kp item of
             Key k \<Rightarrow> Inr (k, item, bump_generator k os)
           | InvalidKey \<Rightarrow> Inl (DOMException ''DataError'')
           | NoKey \<Rightarrow>
               if autoIncrement os \<and> can_inject item
               then Inr (KNum (int (keyGenerator os)), inject_key kp (keyGenerator os) item,
                         os\<lparr>keyGenerator := keyGenerator os + 1\<rparr>)
               else Inl (DOMException ''DataError'')))"

text \<open>\<open>store.put(item)\<close>: a record with the same key is replaced.\<close>

definition store_put :: "objstore \<Rightarrow> jsval \<Rightarrow> thrown + objstore" where
  "store_put os item =
     (case assign_key os item of
        Inl e \<Rightarrow> Inl e
      | Inr (k, v, os1) \<Rightarrow> Inr (os1\<lparr>records := alist_set k v (records os1)\<rparr>))"

text \<open>\<open>store.add(item)\<close>: the request fails with a \<open>ConstraintError\<close> when the key is
  already in the store.\<close>

definition store_add :: "objstore \<Rightarrow> jsval \<Rightarrow> thrown + objstore" where
  "store_add os item =
     (case assign_key os item of
        Inl e \<Rightarrow> Inl e
      | Inr (k, v, os1) \<Rightarrow>
          if k \<in> set (map fst (records os1)) then Inl (DOMException ''ConstraintError'')
          else Inr (os1\<lparr>records := records os1 @ [(k, v)]\<rparr>))"

definition store_clear :: "objstore \<Rightarrow> objstore" where
  "store_clear os = os\<lparr>records := []\<rparr>"

text \<open>\<open>store.openCursor()\<close> followed by \<open>cursor.continue()\<close> until the cursor is null.\<close>

definition cursor_records :: "objstore \<Rightarrow> (idbkey \<times> jsval) list" where
  "cursor_records os = sort_key fst (records os)"

text \<open>\<open>db.objectStoreNames\<close> is a sorted list of names.\<close>

definition objectStoreNames :: "database \<Rightarrow> string list" where
  "objectStoreNames db = sort (map fst (objectStores db))"

definition createObjectStore :: "string \<Rightarrow> string option \<Rightarrow> bool \<Rightarrow> database \<Rightarrow> database" where
  "createObjectStore storeName kp auto db =
     db\<lparr>objectStores := objectStores db @
          [(storeName, \<lparr>keyPath = kp, autoIncrement = auto, keyGenerator = 1, records = []\<rparr>)]\<rparr>"

subsection \<open>The page: its databases, its console, the open connections\<close>

record state =
  idb :: indexedDB
  console :: console_log
  dbConnections :: "string list"

definition log :: "level \<Rightarrow> string \<Rightarrow> state \<Rightarrow> state" where
  "log l msg st = st\<lparr>console := console st @ [(l, msg)]\<rparr>"

definition set_database :: "string \<Rightarrow> database \<Rightarrow> state \<Rightarrow> state" where
  "set_database dbName db st = st\<lparr>idb := alist_set dbName db (idb st)\<rparr>"

definition set_store :: "string \<Rightarrow> string \<Rightarrow> objstore \<Rightarrow> state \<Rightarrow> state" where
  "set_store dbName storeName os st =
     (case map_of (idb st) dbName of
        None \<Rightarrow> st
      | Some db \<Rightarrow> set_database dbName (db\<lparr>objectStores := alist_set storeName os (objectStores db)\<rparr>) st)"

definition get_store :: "state \<Rightarrow> string \<Rightarrow> string \<Rightarrow> objstore option" where
  "get_store st dbName storeName =
     (case map_of (idb st) dbName of
        None \<Rightarrow> None
      | Some db \<Rightarrow> map_of (objectStores db) storeName)"

text \<open>
  \<open>indexedDB.open(name, version)\<close>. Without a version the database is opened as it is, and
  created at version 1 if it does not exist. With a version, a lower one than the database
  has is a \<open>VersionError\<close>, a higher one (or a database that does not exist) starts an
  upgrade; version 0 is a TypeError.
\<close>

datatype open_result =
    UpgradeNeeded database
  | Success database
  | VersionError
  | OpenThrows thrown

definition indexedDB_open :: "indexedDB \<Rightarrow> string \<Rightarrow> nat option \<Rightarrow> open_result" where
  "indexedDB_open dbs name ver =
     (if ver = Some 0 then OpenThrows (TypeErrorObj ''The version provided must not be 0'')
      else case map_of dbs name of
        None \<Rightarrow> UpgradeNeeded \<lparr>db_version = (case ver of None \<Rightarrow> 1 | Some v \<Rightarrow> v), objectStores = []\<rparr>
      | Some db \<Rightarrow>
          (case ver of
             None \<Rightarrow> Success db
           | Some v \<Rightarrow>
               if v < db_version db then VersionError
               else if v = db_version db then Success db
               else UpgradeNeeded (db\<lparr>db_version := v\<rparr>)))"

subsection \<open>DroppableImageTarget\<close>

text \<open>
  The widget keeps the dropped image in the object store \<open>images\<close> of the database
  \<open>windowImage\<close>. \<open>db_ready\<close> is \<open>this.db\<close> being set; \<open>shown\<close> is the source of the image
  element that \<open>displayImage\<close> puts into the target.
\<close>

record droppable =
  db_ready :: bool
  backgroundColor :: string
  shown :: "string option"

definition starts_with :: "string \<Rightarrow> string \<Rightarrow> bool" where
  "starts_with s p = (take (length p) s = p)"

definition displayImage :: "string \<Rightarrow> droppable \<Rightarrow> droppable" where
  "displayImage dataUrl w = w\<lparr>shown := Some dataUrl\<rparr>"

text \<open>\<open>initDatabase\<close>: opens \<open>windowImage\<close> at version 1; the upgrade creates the store
  \<open>images\<close> with key path \<open>id\<close> (an exception in the upgrade handler aborts the upgrade, and
  the open request fails). The promise it returns is rejected when the open request fails,
  after the error has been logged, and when \<open>indexedDB.open\<close> throws.\<close>

definition initDatabase :: "droppable \<Rightarrow> state \<Rightarrow> unit outcome \<times> droppable \<times> state" where
  "initDatabase w st =
     (case indexedDB_open (idb st) ''windowImage'' (Some 1) of
        UpgradeNeeded db \<Rightarrow>
          if ''images'' \<in> set (map fst (objectStores db))
          then (Rejected (Reason ''Error opening database''), w, log Err ''IndexedDB error:'' st)
          else (Fulfilled (), w\<lparr>db_ready := True\<rparr>,
                log Log ''Database opened successfully.''
                  (set_database ''windowImage'' (createObjectStore ''images'' (Some ''id'') False db) st))
      | Success db \<Rightarrow>
          (Fulfilled (), w\<lparr>db_ready := True\<rparr>, log Log ''Database opened successfully.'' st)
      | VersionError \<Rightarrow>
          (Rejected (Reason ''Error opening database''), w, log Err ''IndexedDB error:'' st)
      | OpenThrows e \<Rightarrow> (Rejected e, w, st))"

text \<open>
  \<open>storeImage(file)\<close>, from the call to the end of the transaction that the \<open>onload\<close>
  handler of the reader starts. \<open>now\<close> is the time \<open>new Date()\<close> reads. The \<open>clear\<close> and
  the \<open>add\<close> are requests of one transaction: when the \<open>add\<close> fails, or throws inside the
  handler of the \<open>clear\<close>, the transaction is aborted and the \<open>clear\<close> is undone with it.
\<close>

datatype store_result = NotInitialized | Uncaught thrown | AddFailed thrown | Stored

definition imageObject :: "blob \<Rightarrow> string \<Rightarrow> int \<Rightarrow> jsval" where
  "imageObject file imageData now =
     VObj [(''id'', VStr ''current-image''),
           (''name'', (case blob_name file of Some n \<Rightarrow> VStr n | None \<Rightarrow> VUndefined)),
           (''data'', VStr imageData),
           (''timestamp'', VDate now)]"

definition storeImage ::
  "blob \<Rightarrow> int \<Rightarrow> droppable \<Rightarrow> state \<Rightarrow> store_result \<times> droppable \<times> state" where
  "storeImage file now w st =
     (if \<not> db_ready w then (NotInitialized, w, log Err ''Database not initialized.'' st)
      else
        let imageData = readAsDataURL file
        in case get_store st ''windowImage'' ''images'' of
             None \<Rightarrow> (Uncaught (DOMException ''NotFoundError''), w, st)
           | Some store \<Rightarrow>
               (let cleared = store_clear store;
                    st1 = log Log ''Previous images cleared.'' st
                in case store_add cleared (imageObject file imageData now) of
                     Inl (DOMException n) \<Rightarrow>
                       if n = ''ConstraintError''
                       then (AddFailed (DOMException n), w, log Err ''Error storing image:'' st1)
                       else (Uncaught (DOMException n), w, st1)
                   | Inl e \<Rightarrow> (Uncaught e, w, st1)
                   | Inr store' \<Rightarrow>
                       (Stored, displayImage imageData w,
                        log Log ''Image stored successfully!''
                          (set_store ''windowImage'' ''images'' store' st1))))"

text \<open>The \<open>drop\<close> handler: \<open>files\<close> is \<open>event.dataTransfer.files\<close>.\<close>

definition on_drop ::
  "blob list \<Rightarrow> int \<Rightarrow> droppable \<Rightarrow> state \<Rightarrow> store_result option \<times> droppable \<times> state" where
  "on_drop files now w st =
     (let w1 = w\<lparr>backgroundColor := []\<rparr>
      in case files of
           file # _ \<Rightarrow>
             if starts_with (blob_type file) ''image/''
             then (case storeImage file now w1 st of (r, w2, st2) \<Rightarrow> (Some r, w2, st2))
             else (None, w1, st)
         | [] \<Rightarrow> (None, w1, st))"

subsection \<open>IndexedDBBackupRestore\<close>

text \<open>The constructor: \<open>dbNames\<close> must be an array of strings.\<close>

fun string_of :: "jsval \<Rightarrow> string option" where
  "string_of (VStr s) = Some s"
| "string_of _ = None"

definition new_IndexedDBBackupRestore :: "jsval \<Rightarrow> thrown + string list" where
  "new_IndexedDBBackupRestore dbNames =
     (case dbNames of
        VArr xs \<Rightarrow>
          (case those (map string_of xs) of
             None \<Rightarrow> Inl (ErrorObj ''dbNames must be an array of strings.'')
           | Some names \<Rightarrow> Inr names)
      | _ \<Rightarrow> Inl (ErrorObj ''dbNames must be an array of strings.''))"

text \<open>The constant the page passes to the constructor.\<close>

definition DB_NAMES :: "string list" where
  "DB_NAMES = [''kalvNotesDB'', ''windowImage'']"

text \<open>\<open>_openDB(dbName, version, objectStoreNames)\<close>: the upgrade creates every named store
  that the database does not have, with key path \<open>id\<close> and a key generator; a failed open
  rejects with a string (\<open>event.target.errorCode\<close> is \<open>undefined\<close>).\<close>

fun upgrade_stores :: "string \<Rightarrow> string list \<Rightarrow> database \<Rightarrow> console_log \<Rightarrow> database \<times> console_log" where
  "upgrade_stores dbName [] db c = (db, c)"
| "upgrade_stores dbName (storeName # rest) db c =
     (if storeName \<in> set (map fst (objectStores db)) then upgrade_stores dbName rest db c
      else upgrade_stores dbName rest (createObjectStore storeName (Some ''id'') True db)
             (c @ [(Log, ''Creating object store: '' @ storeName @ '' in '' @ dbName)]))"

definition connect :: "string \<Rightarrow> state \<Rightarrow> state" where
  "connect dbName st =
     st\<lparr>dbConnections := (if dbName \<in> set (dbConnections st) then dbConnections st
                           else dbConnections st @ [dbName])\<rparr>"

definition openDB :: "string \<Rightarrow> nat option \<Rightarrow> string list \<Rightarrow> state \<Rightarrow> (thrown + database) \<times> state" where
  "openDB dbName ver storeNames st =
     (case indexedDB_open (idb st) dbName ver of
        UpgradeNeeded db0 \<Rightarrow>
          (case upgrade_stores dbName storeNames db0 (console st) of
             (db, c) \<Rightarrow> (Inr db, connect dbName (set_database dbName db (st\<lparr>console := c\<rparr>))))
      | Success db \<Rightarrow> (Inr db, connect dbName st)
      | VersionError \<Rightarrow> (Inl (Reason (''Error opening DB '' @ dbName @ '': undefined'')), st)
      | OpenThrows e \<Rightarrow> (Inl e, st))"

text \<open>\<open>_base64ToBlob(base64, mimeType)\<close>. The \<open>try\<close> block decodes the text after the
  first comma; it throws when the argument is not a string (it has no \<open>split\<close>) and when
  \<open>atob\<close> rejects the text. A string with no comma makes \<open>split(',')[1]\<close> \<open>undefined\<close>,
  which \<open>atob\<close> reads as the text \<open>undefined\<close>. The \<open>catch\<close> logs and returns
  \<open>null\<close>.\<close>

definition base64ToBlob_try :: "jsval \<Rightarrow> jsval \<Rightarrow> blob option" where
  "base64ToBlob_try base64data mimeType =
     (case base64data of
        VStr s \<Rightarrow>
          (case atob (case nth_opt (split_on CHR '','' s) 1 of
                        None \<Rightarrow> ''undefined'' | Some p \<Rightarrow> p) of
             None \<Rightarrow> None
           | Some byteString \<Rightarrow>
               Some \<lparr>blob_bytes = byteString, blob_type = blob_type_of mimeType,
                     blob_name = None\<rparr>)
      | _ \<Rightarrow> None)"

definition base64ToBlob :: "jsval \<Rightarrow> jsval \<Rightarrow> state \<Rightarrow> blob option \<times> state" where
  "base64ToBlob base64data mimeType st =
     (case base64ToBlob_try base64data mimeType of
        Some b \<Rightarrow> (Some b, st)
      | None \<Rightarrow> (None, log Err ''Error converting base64 to blob:'' st))"

subsubsection \<open>backup\<close>

text \<open>The object that takes the place of a Blob or File in the backup.\<close>

definition file_data :: "blob \<Rightarrow> jsval" where
  "file_data b =
     VObj [(''_indexedDB_file_data'', VBool True),
           (''data'', VStr (readAsDataURL b)),
           (''type'', VStr (blob_type b)),
           (''name'', VStr (case blob_name b of
                              None \<Rightarrow> ''unnamed_file''
                            | Some n \<Rightarrow> if n = [] then ''unnamed_file'' else n))]"

text \<open>
  The loop over the properties of an item in the cursor handler. Every Blob or File is
  handed to a \<open>FileReader\<close>, and the handler waits for it. \<open>readable b\<close> tells whether the
  reader can read \<open>b\<close>: if so the property becomes the object above; if not, the reader's
  \<open>error\<close> event rejects the promise, the \<open>catch\<close> logs the error and the property becomes
  \<open>null\<close>. The second component of the result tells whether the handler awaited a reader,
  the third is what it logged.
\<close>

fun backup_fields ::
  "(blob \<Rightarrow> bool) \<Rightarrow> (string \<times> jsval) list \<Rightarrow> (string \<times> jsval) list \<times> bool \<times> console_log" where
  "backup_fields readable [] = ([], False, [])"
| "backup_fields readable (p # ps) =
     (case backup_fields readable ps of
        (ps', awaited, c) \<Rightarrow>
          (case snd p of
             VBlob b \<Rightarrow>
               if readable b then ((fst p, file_data b) # ps', True, c)
               else ((fst p, VNull) # ps', True,
                     (Err, ''Error converting file to base64 for key '' @ quoted (fst p) @ '':'') # c)
           | _ \<Rightarrow> (p # ps', awaited, c)))"

text \<open>
  The cursor loop of one object store. The \<open>onsuccess\<close> handler is an \<open>async\<close> function.
  When it awaits a \<open>FileReader\<close>, it resumes in a later task: by then the read-only
  transaction, which has no request left, has finished, and \<open>cursor.continue()\<close> throws a
  \<open>TransactionInactiveError\<close> inside the handler. The item has been pushed, but neither
  \<open>resolve\<close> nor \<open>reject\<close> is called: the promise that \<open>backup\<close> awaits stays pending.
  When no property is a Blob the handler runs to \<open>cursor.continue()\<close> without a pause.
\<close>

fun backup_cursor ::
  "(blob \<Rightarrow> bool) \<Rightarrow> (idbkey \<times> jsval) list \<Rightarrow> jsval list \<Rightarrow> state
     \<Rightarrow> (jsval list) outcome \<times> state" where
  "backup_cursor readable [] items st = (Fulfilled items, st)"
| "backup_cursor readable (r # rs) items st =
     (case backup_fields readable (spread (snd r)) of
        (item, awaited, c) \<Rightarrow>
          (let st1 = st\<lparr>console := console st @ c\<rparr>
           in if awaited then (Pending, st1)
              else backup_cursor readable rs (items @ [VObj item]) st1))"

fun backup_stores ::
  "(blob \<Rightarrow> bool) \<Rightarrow> database \<Rightarrow> string list \<Rightarrow> (string \<times> jsval) list \<Rightarrow> state
     \<Rightarrow> ((string \<times> jsval) list) outcome \<times> state" where
  "backup_stores readable db [] stores st = (Fulfilled stores, st)"
| "backup_stores readable db (storeName # rest) stores st =
     (case map_of (objectStores db) storeName of
        None \<Rightarrow> (Rejected (DOMException ''NotFoundError''), st)
      | Some store \<Rightarrow>
          (case backup_cursor readable (cursor_records store) [] st of
             (Fulfilled items, st1) \<Rightarrow>
               backup_stores readable db rest (set_property storeName (VArr items) stores) st1
           | (Rejected e, st1) \<Rightarrow> (Rejected e, st1)
           | (Pending, st1) \<Rightarrow> (Pending, st1)))"

fun backup_dbs ::
  "(blob \<Rightarrow> bool) \<Rightarrow> string list \<Rightarrow> (string \<times> jsval) list \<Rightarrow> state
     \<Rightarrow> (jsontext option) outcome \<times> state" where
  "backup_dbs readable [] backupData st = (Fulfilled (JSON_stringify (VObj backupData)), st)"
| "backup_dbs readable (dbName # rest) backupData st =
     (case openDB dbName None [] st of
        (Inl error, st1) \<Rightarrow>
          (Rejected (ErrorObj (''Backup failed for '' @ dbName @ '': '' @ message_of error)),
           log Err (''Error during backup of '' @ dbName @ '':'') st1)
      | (Inr db, st1) \<Rightarrow>
          (case backup_stores readable db (objectStoreNames db) [] st1 of
             (Fulfilled stores, st2) \<Rightarrow>
               backup_dbs readable rest (set_property dbName (VObj stores) backupData) st2
           | (Rejected error, st2) \<Rightarrow>
               (Rejected (ErrorObj (''Backup failed for '' @ dbName @ '': '' @ message_of error)),
                log Err (''Error during backup of '' @ dbName @ '':'') st2)
           | (Pending, st2) \<Rightarrow> (Pending, st2)))"

text \<open>\<open>backup()\<close> of a helper made for \<open>dbNames\<close>, in a browser whose \<open>FileReader\<close> reads
  the Blobs that \<open>readable\<close> holds of.\<close>

definition backup ::
  "(blob \<Rightarrow> bool) \<Rightarrow> string list \<Rightarrow> state \<Rightarrow> (jsontext option) outcome \<times> state" where
  "backup readable dbNames st = backup_dbs readable dbNames [] st"

subsubsection \<open>restore\<close>

text \<open>The body of the loop over the properties of an item: a property that holds an object
  with a truthy \<open>_indexedDB_file_data\<close> becomes the Blob that \<open>_base64ToBlob\<close> returns, or
  \<open>null\<close>.\<close>

definition restore_value :: "string \<Rightarrow> jsval \<Rightarrow> state \<Rightarrow> jsval \<times> state" where
  "restore_value key v st =
     (if truthy v \<and> typeof_object v \<and> truthy (get_prop v ''_indexedDB_file_data'')
      then (case base64ToBlob (get_prop v ''data'') (get_prop v ''type'') st of
              (Some b, st1) \<Rightarrow> (VBlob b, st1)
            | (None, st1) \<Rightarrow>
                (VNull, log Warn (''Failed to convert base64 to Blob for key: '' @ quoted key
                                   @ ''. Setting to null.'') st1))
      else (v, st))"

fun restore_fields :: "(string \<times> jsval) list \<Rightarrow> state \<Rightarrow> (string \<times> jsval) list \<times> state" where
  "restore_fields [] st = ([], st)"
| "restore_fields (p # ps) st =
     (case restore_value (fst p) (snd p) st of
        (v, st1) \<Rightarrow> (case restore_fields ps st1 of (ps', st2) \<Rightarrow> ((fst p, v) # ps', st2)))"

text \<open>\<open>for (const key in item)\<close> visits the properties of an object and the elements of an
  array; the characters of a string are not objects, and other values have nothing to
  visit.\<close>

fun restore_item :: "jsval \<Rightarrow> state \<Rightarrow> jsval \<times> state" where
  "restore_item (VObj ps) st = (case restore_fields ps st of (ps', st1) \<Rightarrow> (VObj ps', st1))"
| "restore_item (VArr xs) st =
     (case restore_fields (zip (indices (length xs)) xs) st of
        (ps', st1) \<Rightarrow> (VArr (map snd ps'), st1))"
| "restore_item v st = (v, st)"

text \<open>
  The loop over the items of one object store. \<open>store.put(item)\<close> throws inside the promise
  executor, which rejects the promise; the \<open>catch\<close> logs and throws the error that ends
  \<open>restore\<close>. Nothing aborts the transaction: the items put before stay in the store.
\<close>

fun restore_items :: "string \<Rightarrow> string \<Rightarrow> jsval list \<Rightarrow> state \<Rightarrow> (thrown + unit) \<times> state" where
  "restore_items dbName storeName [] st = (Inr (), st)"
| "restore_items dbName storeName (item # rest) st =
     (case restore_item item st of
        (item', st1) \<Rightarrow>
          (case get_store st1 dbName storeName of
             None \<Rightarrow> (Inl (DOMException ''NotFoundError''), st1)
           | Some store \<Rightarrow>
               (case store_put store item' of
                  Inl e \<Rightarrow>
                    (Inl (ErrorObj (''Restoration failed for an item in '' @ dbName @ ''.''
                                     @ storeName @ ''.'')),
                     log Err (''Error putting item into '' @ dbName @ ''.'' @ storeName @ '':'') st1)
                | Inr store' \<Rightarrow>
                    restore_items dbName storeName rest (set_store dbName storeName store' st1))))"

text \<open>The loop over the object stores of one database, inside the \<open>try\<close>.\<close>

fun restore_stores ::
  "string \<Rightarrow> jsval \<Rightarrow> database \<Rightarrow> string list \<Rightarrow> state \<Rightarrow> (thrown + unit) \<times> state" where
  "restore_stores dbName dbStoresData db [] st = (Inr (), st)"
| "restore_stores dbName dbStoresData db (storeName # rest) st =
     (let itemsToRestore = get_prop dbStoresData storeName
      in if \<not> truthy itemsToRestore \<or> get_prop itemsToRestore ''length'' = VNum 0
         then restore_stores dbName dbStoresData db rest st
         else if storeName \<notin> set (objectStoreNames db)
         then restore_stores dbName dbStoresData db rest
                (log Warn (''Object store '' @ quoted storeName @ '' not found in ''
                            @ quoted dbName @ ''. Skipping restore for this store.'') st)
         else case for_of_items itemsToRestore of
                Inl e \<Rightarrow> (Inl e, st)
              | Inr items \<Rightarrow>
                  (case restore_items dbName storeName items st of
                     (Inl e, st1) \<Rightarrow> (Inl e, st1)
                   | (Inr u, st1) \<Rightarrow> restore_stores dbName dbStoresData db rest st1))"

text \<open>\<open>parsedData.hasOwnProperty(dbName)\<close>: a document with a member named
  \<open>hasOwnProperty\<close> hides the method, and the call throws.\<close>

fun hasOwnProperty_call :: "jsval \<Rightarrow> string \<Rightarrow> thrown + bool" where
  "hasOwnProperty_call (VObj ps) k =
     (case map_of ps ''hasOwnProperty'' of
        Some v \<Rightarrow> Inl (TypeErrorObj ''parsedData.hasOwnProperty is not a function'')
      | None \<Rightarrow> Inr (k \<in> set (map fst ps)))"
| "hasOwnProperty_call (VArr xs) k = Inr (k = ''length'' \<or> k \<in> set (indices (length xs)))"
| "hasOwnProperty_call (VStr s) k = Inr (k = ''length'' \<or> k \<in> set (indices (length s)))"
| "hasOwnProperty_call v k = Inr False"

text \<open>The loop over the databases of the document. \<open>Object.keys\<close> is outside the \<open>try\<close>;
  what the \<open>try\<close> catches is logged and thrown again as an \<open>Error\<close>.\<close>

fun restore_dbs :: "jsval \<Rightarrow> string list \<Rightarrow> state \<Rightarrow> unit outcome \<times> state" where
  "restore_dbs parsedData [] st = (Fulfilled (), st)"
| "restore_dbs parsedData (dbName # rest) st =
     (case hasOwnProperty_call parsedData dbName of
        Inl e \<Rightarrow> (Rejected e, st)
      | Inr False \<Rightarrow> restore_dbs parsedData rest st
      | Inr True \<Rightarrow>
          (let dbStoresData = get_prop parsedData dbName
           in case Object_keys dbStoresData of
                Inl e \<Rightarrow> (Rejected e, st)
              | Inr storeNames \<Rightarrow>
                  (case (case openDB dbName (Some 1) storeNames st of
                           (Inl e, st1) \<Rightarrow> (Inl e, st1)
                         | (Inr db, st1) \<Rightarrow> restore_stores dbName dbStoresData db storeNames st1) of
                     (Inl error, st2) \<Rightarrow>
                       (Rejected (ErrorObj (''Restoration failed for '' @ dbName @ '': ''
                                             @ message_of error)),
                        log Err (''Error during restore of '' @ dbName @ '':'') st2)
                   | (Inr u, st2) \<Rightarrow> restore_dbs parsedData rest st2)))"

definition restore :: "jsontext \<Rightarrow> state \<Rightarrow> unit outcome \<times> state" where
  "restore jsonString st =
     (case JSON_parse jsonString of
        None \<Rightarrow> (Rejected (ErrorObj ''Invalid JSON string provided for restoration.''), st)
      | Some parsedData \<Rightarrow> restore_dbs parsedData (for_in_keys parsedData) st)"

definition closeConnections :: "state \<Rightarrow> state" where
  "closeConnections st =
     (st\<lparr>dbConnections := [],
         console := console st @ map (\<lambda>dbName. (Log, ''Closed connection to '' @ dbName))
                                     (dbConnections st)\<rparr>)"

subsection \<open>The page: the backup and restore buttons\<close>

text \<open>
  The click handlers that \<open>InitKalv\<close> installs. \<open>showMessage\<close> writes its message into the
  message box of the page; a handler is modelled with the list of the messages it shows, in
  order (the box holds the last one). The handler of the backup button awaits \<open>backup()\<close>:
  when that promise is never settled, neither the \<open>catch\<close> nor the \<open>finally\<close> runs.
\<close>

definition backup_click ::
  "(blob \<Rightarrow> bool) \<Rightarrow> state \<Rightarrow> unit outcome \<times> string list \<times> state" where
  "backup_click readable st =
     (case backup readable DB_NAMES st of
        (Fulfilled json, st1) \<Rightarrow>
          (Fulfilled (), [''Saving backup disk...'', ''Disk downloaded successfully!''],
           closeConnections st1)
      | (Rejected error, st1) \<Rightarrow>
          (Fulfilled (), [''Saving backup disk...'', ''Disk save failed: '' @ message_of error @ ''.''],
           closeConnections (log Err ''Disk save failed:'' st1))
      | (Pending, st1) \<Rightarrow> (Pending, [''Saving backup disk...''], st1))"

text \<open>What the restore button finds in the file input: no file, a file that the reader
  cannot read, or a file with its text.\<close>

datatype upload = NoFile | UnreadableFile | FileText jsontext

definition restore_click :: "upload \<Rightarrow> state \<Rightarrow> unit outcome \<times> string list \<times> state" where
  "restore_click file st =
     (case file of
        NoFile \<Rightarrow> (Fulfilled (), [''Please select a kalv disk to upload.''], st)
      | UnreadableFile \<Rightarrow>
          (Fulfilled (), [''Loading disk...'', ''Error reading file. Check console for errors.''],
           log Err ''File reading error:'' st)
      | FileText jsonString \<Rightarrow>
          (case restore jsonString st of
             (Fulfilled u, st1) \<Rightarrow>
               (Fulfilled (), [''Loading disk...'', ''Loaded!''], closeConnections st1)
           | (Rejected error, st1) \<Rightarrow>
               (Fulfilled (), [''Loading disk...'', ''Loading failed: '' @ message_of error @ ''.''],
                closeConnections (log Err ''Loading failed:'' st1))
           | (Pending, st1) \<Rightarrow> (Pending, [''Loading disk...''], st1)))"

subsection \<open>What restore is to put\<close>

text \<open>
  The item that \<open>restore\<close> hands to \<open>store.put\<close>, as a function of the item in the
  document: every property that holds an object with a truthy \<open>_indexedDB_file_data\<close> is
  the decoded Blob, or \<open>null\<close>.
\<close>

definition is_file_data :: "jsval \<Rightarrow> bool" where
  "is_file_data v = (truthy v \<and> typeof_object v \<and> truthy (get_prop v ''_indexedDB_file_data''))"

definition restored_value :: "jsval \<Rightarrow> jsval" where
  "restored_value v =
     (if is_file_data v
      then (case base64ToBlob_try (get_prop v ''data'') (get_prop v ''type'') of
              Some b \<Rightarrow> VBlob b | None \<Rightarrow> VNull)
      else v)"

fun restored_item :: "jsval \<Rightarrow> jsval" where
  "restored_item (VObj ps) = VObj (map (\<lambda>p. (fst p, restored_value (snd p))) ps)"
| "restored_item (VArr xs) = VArr (map restored_value xs)"
| "restored_item v = v"

text \<open>Putting every item of a list into a store, in order; the first \<open>put\<close> that throws
  ends it.\<close>

fun put_every_item :: "objstore \<Rightarrow> jsval list \<Rightarrow> thrown + objstore" where
  "put_every_item store [] = Inr store"
| "put_every_item store (item # rest) =
     (case store_put store item of
        Inl e \<Rightarrow> Inl e
      | Inr store' \<Rightarrow> put_every_item store' rest)"

text \<open>The object store that the upgrade of \<open>_openDB\<close> creates.\<close>

definition fresh_store :: objstore where
  "fresh_store = \<lparr>keyPath = Some ''id'', autoIncrement = True, keyGenerator = 1, records = []\<rparr>"

subsection \<open>Records that JSON can carry\<close>

text \<open>
  A value that JSON writes and reads back as it is: \<open>null\<close>, booleans, numbers, strings,
  and arrays and objects of such values. (No \<open>undefined\<close>, no Date, no Blob; the property
  names of an object are distinct and in enumeration order, as they are in every object.)
\<close>

fun plain :: "jsval \<Rightarrow> bool"
  and plain_list :: "jsval list \<Rightarrow> bool"
  and plain_props :: "(string \<times> jsval) list \<Rightarrow> bool" where
  "plain VUndefined = False"
| "plain VNull = True"
| "plain (VBool b) = True"
| "plain (VNum n) = True"
| "plain (VStr s) = True"
| "plain (VDate t) = False"
| "plain (VBlob b) = False"
| "plain (VArr xs) = plain_list xs"
| "plain (VObj ps) =
     (distinct (map fst ps) \<and> own_property_order (map fst ps) \<and> plain_props ps)"
| "plain_list [] = True"
| "plain_list (x # xs) = (plain x \<and> plain_list xs)"
| "plain_props [] = True"
| "plain_props (p # ps) = (plain (snd p) \<and> plain_props ps)"

text \<open>
  A record of a store with key path \<open>kp\<close> that a backup can carry: a plain object, none of
  whose properties looks like the stand-in of a Blob, stored under the key it has at the key
  path. A plain store has a key path, distinct keys and such records; a plain database is at
  version 1 and has plain stores with distinct names.
\<close>

definition plain_record :: "string \<Rightarrow> idbkey \<times> jsval \<Rightarrow> bool" where
  "plain_record kp r =
     (case snd r of
        VObj ps \<Rightarrow> plain (VObj ps) \<and> list_all (\<lambda>p. \<not> is_file_data (snd p)) ps
                    \<and> extract_key kp (VObj ps) = Key (fst r)
      | _ \<Rightarrow> False)"

definition plain_store :: "objstore \<Rightarrow> bool" where
  "plain_store store =
     (case keyPath store of
        None \<Rightarrow> False
      | Some kp \<Rightarrow> distinct (map fst (records store)) \<and> list_all (plain_record kp) (records store))"

definition plain_database :: "database \<Rightarrow> bool" where
  "plain_database db =
     (db_version db = 1 \<and> distinct (map fst (objectStores db))
      \<and> list_all (\<lambda>p. plain_store (snd p)) (objectStores db))"

subsection \<open>What a backup is to hold, and where it can be restored\<close>

text \<open>
  The value that the specification of \<open>backup\<close> describes: an object that maps each
  database name to an object that maps each object store name of that database to the array
  of the records of the store, in cursor order (each record as the spread \<open>{...value}\<close>
  copies it). \<open>object_of\<close> is the object that has the listed properties, assigned in that
  order. A database that does not exist is opened as a new, empty one.
\<close>

definition object_of :: "(string \<times> jsval) list \<Rightarrow> jsval" where
  "object_of ps = VObj (foldl (\<lambda>acc p. set_property (fst p) (snd p) acc) [] ps)"

definition store_items :: "objstore \<Rightarrow> jsval list" where
  "store_items store = map (\<lambda>r. VObj (spread (snd r))) (cursor_records store)"

definition backup_of_database :: "database \<Rightarrow> jsval" where
  "backup_of_database db =
     object_of (map (\<lambda>s. (s, VArr (case map_of (objectStores db) s of
                                       Some store \<Rightarrow> store_items store | None \<Rightarrow> [])))
                    (objectStoreNames db))"

definition database_of :: "state \<Rightarrow> string \<Rightarrow> database" where
  "database_of st d =
     (case map_of (idb st) d of
        Some db \<Rightarrow> db
      | None \<Rightarrow> \<lparr>db_version = 1, objectStores = []\<rparr>)"

definition backup_of :: "string list \<Rightarrow> state \<Rightarrow> jsval" where
  "backup_of names st = object_of (map (\<lambda>d. (d, backup_of_database (database_of st d))) names)"

text \<open>No record of the database has a Blob or File as a property.\<close>

fun is_blob :: "jsval \<Rightarrow> bool" where
  "is_blob (VBlob b) = True"
| "is_blob v = False"

definition no_blob_property :: "database \<Rightarrow> bool" where
  "no_blob_property db =
     list_all (\<lambda>p. list_all (\<lambda>r. list_all (\<lambda>q. \<not> is_blob (snd q)) (spread (snd r)))
                            (records (snd p)))
       (objectStores db)"

text \<open>
  A page into which the backup of database \<open>db\<close>, named \<open>d\<close>, can be restored: it has no
  database \<open>d\<close> (\<open>restore\<close> then creates the stores, with key path \<open>id\<close>), or it has one at
  version 1 in which every store of \<open>db\<close> exists with the same key path.
\<close>

definition restorable_into :: "state \<Rightarrow> string \<Rightarrow> database \<Rightarrow> bool" where
  "restorable_into target d db =
     (case map_of (idb target) d of
        None \<Rightarrow> list_all (\<lambda>p. records (snd p) = [] \<or> keyPath (snd p) = Some ''id'') (objectStores db)
      | Some db_t \<Rightarrow>
          db_version db_t = 1 \<and>
          list_all (\<lambda>p. case map_of (objectStores db_t) (fst p) of
                        None \<Rightarrow> False
                      | Some store_t \<Rightarrow> keyPath store_t = keyPath (snd p))
            (objectStores db))"

text \<open>
  \<open>restore(await backup())\<close> in one page. (\<open>JSON.stringify\<close> gives no string only for a
  value that is not an object; \<open>JSON.parse\<close> throws on \<open>undefined\<close>.)
\<close>

definition backup_then_restore ::
  "(blob \<Rightarrow> bool) \<Rightarrow> string list \<Rightarrow> state \<Rightarrow> unit outcome \<times> state" where
  "backup_then_restore readable names st =
     (case backup readable names st of
        (Fulfilled (Some jsonString), st1) \<Rightarrow> restore jsonString st1
      | (Fulfilled None, st1) \<Rightarrow>
          (Rejected (ErrorObj ''Invalid JSON string provided for restoration.''), st1)
      | (Rejected e, st1) \<Rightarrow> (Rejected e, st1)
      | (Pending, st1) \<Rightarrow> (Pending, st1))"

subsection \<open>DotCanvas\<close>

text \<open>
  \<open>Math.random()\<close> is a stream of the numbers it will return, each in \<open>[0, 1)\<close>; a method
  takes the stream and returns what is left of it. The coordinates of a dot are real numbers.
  \<open>retry_index\<close> is the loop of \<open>addRandomLine\<close> that draws the second index again while
  it equals the first; it has no result when the loop does not end. \<open>retry_fuel k\<close> is the
  same loop stopped after \<open>k\<close> further draws.
\<close>

record dot =
  dot_x :: real
  dot_y :: real
  dot_radius :: real
  dot_color :: string

record line =
  dot1 :: "dot option"
  dot2 :: "dot option"
  line_color :: string

record dotcanvas =
  maxDots :: nat
  dotRadius :: real
  dots :: "dot list"
  lines :: "line list"
  dotCount :: nat
  lineTimeout :: "real option"

definition random_index :: "real \<Rightarrow> nat \<Rightarrow> nat" where
  "random_index r n = nat \<lfloor>r * real n\<rfloor>"

definition letters :: string where
  "letters = ''0123456789ABCDEF''"

fun getRandomColor_loop :: "nat \<Rightarrow> string \<Rightarrow> real stream \<Rightarrow> string \<times> real stream" where
  "getRandomColor_loop 0 color rs = (color, rs)"
| "getRandomColor_loop (Suc k) color rs =
     getRandomColor_loop k (color @ [letters ! random_index (shd rs) 16]) (stl rs)"

definition getRandomColor :: "real stream \<Rightarrow> string \<times> real stream" where
  "getRandomColor rs = (let (color, rs') = getRandomColor_loop 6 ''#'' rs in (''#ffffff'', rs'))"

partial_function (option) retry_index ::
  "nat \<Rightarrow> nat \<Rightarrow> nat \<Rightarrow> real stream \<Rightarrow> (nat \<times> real stream) option" where
  "retry_index n randomIndex1 randomIndex2 rs =
     (if randomIndex1 = randomIndex2
      then retry_index n randomIndex1 (random_index (shd rs) n) (stl rs)
      else Some (randomIndex2, rs))"

definition scheduleNextLine :: "dotcanvas \<Rightarrow> real stream \<Rightarrow> dotcanvas \<times> real stream" where
  "scheduleNextLine c rs =
     (let randomDelay = shd rs * (1000 - 200) + 200
      in (c\<lparr>lineTimeout := Some randomDelay\<rparr>, stl rs))"

definition addRandomLine :: "dotcanvas \<Rightarrow> real stream \<Rightarrow> (dotcanvas \<times> real stream) option" where
  "addRandomLine c rs =
     (let c1 = (if length (lines c) > 20 then c\<lparr>lines := []\<rparr> else c);
          randomIndex1 = random_index (shd rs) (length (dots c1));
          randomIndex2 = random_index (shd (stl rs)) (length (dots c1))
      in case retry_index (length (dots c1)) randomIndex1 randomIndex2 (stl (stl rs)) of
           None \<Rightarrow> None
         | Some (randomIndex2', rs1) \<Rightarrow>
             (let d1 = nth_opt (dots c1) randomIndex1;
                  d2 = nth_opt (dots c1) randomIndex2';
                  (lineColor, rs2) = getRandomColor rs1;
                  c2 = c1\<lparr>lines := lines c1 @ [\<lparr>dot1 = d1, dot2 = d2, line_color = lineColor\<rparr>]\<rparr>
              in Some (scheduleNextLine c2 rs2)))"

definition unit_draws :: "real stream \<Rightarrow> bool" where
  "unit_draws rs = (\<forall>k. 0 \<le> rs !! k \<and> rs !! k < 1)"

fun retry_fuel :: "nat \<Rightarrow> nat \<Rightarrow> nat \<Rightarrow> nat \<Rightarrow> real stream \<Rightarrow> (nat \<times> real stream) option" where
  "retry_fuel 0 n randomIndex1 randomIndex2 rs =
     (if randomIndex1 = randomIndex2 then None else Some (randomIndex2, rs))"
| "retry_fuel (Suc k) n randomIndex1 randomIndex2 rs =
     (if randomIndex1 = randomIndex2
      then retry_fuel k n randomIndex1 (random_index (shd rs) n) (stl rs)
      else Some (randomIndex2, rs))"

text \<open>\<open>addRandomLine\<close> is still in its loop after \<open>k\<close> redraws of the second index.\<close>

definition in_loop_after :: "nat \<Rightarrow> dotcanvas \<Rightarrow> real stream \<Rightarrow> bool" where
  "in_loop_after k c rs =
     (retry_fuel k (length (dots c)) (random_index (shd rs) (length (dots c)))
        (random_index (shd (stl rs)) (length (dots c))) (stl (stl rs)) = None)"

text \<open>
  \<open>Math.random()\<close> as an experiment: the engine returns one of \<open>N\<close> equally likely numbers
  \<open>j/N\<close> (a double with a fixed number of random bits), and the draws are independent, so
  that each of the \<open>N^k\<close> sequences of \<open>k\<close> draws is equally likely. The probability of
  an event on \<open>k\<close> draws is the fraction of the sequences that are in it.
\<close>

definition grid :: "nat \<Rightarrow> real list" where
  "grid N = map (\<lambda>j. real j / real N) [0..<N]"

definition probability :: "nat \<Rightarrow> nat \<Rightarrow> (real list \<Rightarrow> bool) \<Rightarrow> real" where
  "probability N k E = real (length (filter E (List.n_lists k (grid N)))) / real (N ^ k)"

definition canvas_two :: dotcanvas where
  "canvas_two = \<lparr>maxDots = 100, dotRadius = 2,
     dots = [\<lparr>dot_x = 1, dot_y = 2, dot_radius = 2, dot_color = ''#ffffff''\<rparr>,
             \<lparr>dot_x = 5, dot_y = 3, dot_radius = 2, dot_color = ''#ffffff''\<rparr>],
     lines = [], dotCount = 2, lineTimeout = None\<rparr>"

definition canvas_one :: dotcanvas where
  "canvas_one = canvas_two\<lparr>dots := [\<lparr>dot_x = 1, dot_y = 2, dot_radius = 2, dot_color = ''#ffffff''\<rparr>], dotCount := 1\<rparr>"

definition draws_example :: "real stream" where
  "draws_example = 1/10 ## 2/10 ## 7/10 ## sconst 0"

subsection \<open>Example states\<close>

definition image_store_empty :: objstore where
  "image_store_empty = \<lparr>keyPath = Some ''id'', autoIncrement = False, keyGenerator = 1, records = []\<rparr>"

definition page_with_image_db :: state where
  "page_with_image_db =
     \<lparr>idb = [(''windowImage'', \<lparr>db_version = 1, objectStores = [(''images'', image_store_empty)]\<rparr>)],
      console = [], dbConnections = []\<rparr>"

definition widget_ready :: droppable where
  "widget_ready = \<lparr>db_ready = True, backgroundColor = [], shown = None\<rparr>"

text \<open>The widget before its database is open, and a page whose database \<open>windowImage\<close> is
  at a later version than the widget asks for.\<close>

definition widget_new :: droppable where
  "widget_new = \<lparr>db_ready = False, backgroundColor = [], shown = None\<rparr>"

definition page_newer_db :: state where
  "page_newer_db =
     \<lparr>idb = [(''windowImage'', \<lparr>db_version = 2, objectStores = [(''images'', image_store_empty)]\<rparr>)],
      console = [], dbConnections = []\<rparr>"

definition png_file :: blob where
  "png_file = \<lparr>blob_bytes = [1, 2, 3, 4], blob_type = ''image/png'', blob_name = Some ''a.png''\<rparr>"

text \<open>A backup document whose second item has no \<open>id\<close>.\<close>

definition half_backup :: jsontext where
  "half_backup =
     Document (JObj [(''windowImage'',
       JObj [(''images'', JArr [JObj [(''id'', JStr ''a'')], JObj [(''name'', JStr ''b'')]])])])"

text \<open>The page after an image has been dropped on the widget, and a backup document with
  another record under the same \<open>id\<close>.\<close>

definition page_with_image :: state where
  "page_with_image = snd (snd (storeImage png_file 1700000000000 widget_ready page_with_image_db))"

definition other_backup :: jsontext where
  "other_backup =
     Document (JObj [(''windowImage'',
       JObj [(''images'', JArr [JObj [(''id'', JStr ''current-image''), (''data'', JStr ''other'')]])])])"

text \<open>A page whose database \<open>files\<close> holds one record with a File in it.\<close>

definition text_file :: blob where
  "text_file = \<lparr>blob_bytes = [77, 97, 110], blob_type = ''text/plain'', blob_name = Some ''a.txt''\<rparr>"

definition page_with_file :: state where
  "page_with_file =
     \<lparr>idb = [(''files'', \<lparr>db_version = 1, objectStores =
         [(''docs'', \<lparr>keyPath = Some ''id'', autoIncrement = False, keyGenerator = 1,
                       records = [(KNum 1, VObj [(''id'', VNum 1), (''file'', VBlob text_file)])]\<rparr>)]\<rparr>)],
      console = [], dbConnections = []\<rparr>"

text \<open>A page whose database \<open>kalvNotesDB\<close> holds a record with a File in it.\<close>

definition page_with_attachment :: state where
  "page_with_attachment =
     \<lparr>idb = [(''kalvNotesDB'', \<lparr>db_version = 1, objectStores =
         [(''notes'', \<lparr>keyPath = Some ''id'', autoIncrement = True, keyGenerator = 2,
                        records = [(KNum 1, VObj [(''id'', VNum 1), (''file'', VBlob text_file)])]\<rparr>)]\<rparr>)],
      console = [], dbConnections = []\<rparr>"

text \<open>A backup document that names an object store the database does not have, and one
  whose item has a \<open>timestamp\<close>.\<close>

definition unknown_store_backup :: jsontext where
  "unknown_store_backup =
     Document (JObj [(''windowImage'', JObj [(''thumbnails'', JArr [JObj [(''id'', JNum 1)]])])])"

definition timestamped_item :: "(string \<times> json) list" where
  "timestamped_item =
     [(''id'', JStr ''current-image''), (''timestamp'', JStr ''2023-11-14T22:13:20.000Z'')]"

definition timestamped_backup :: jsontext where
  "timestamped_backup =
     Document (JObj [(''windowImage'', JObj [(''images'', JArr [JObj timestamped_item])])])"

text \<open>A browser whose \<open>FileReader\<close> reads every Blob, and one that cannot read the file
  \<open>a.txt\<close>.\<close>

definition every_blob :: "blob \<Rightarrow> bool" where
  "every_blob b = True"

definition all_but_a_txt :: "blob \<Rightarrow> bool" where
  "all_but_a_txt b = (blob_name b \<noteq> Some ''a.txt'')"

text \<open>A page whose database \<open>kalvNotesDB\<close> holds one record, of what JSON can carry.\<close>

definition plain_note :: jsval where
  "plain_note = VObj [(''id'', VNum 1), (''text'', VStr ''hello''), (''done'', VBool False),
                (''tags'', VArr [VStr ''a'', VNull])]"

definition page_with_note :: state where
  "page_with_note =
     \<lparr>idb = [(''kalvNotesDB'', \<lparr>db_version = 1, objectStores =
         [(''notes'', \<lparr>keyPath = Some ''id'', autoIncrement = True, keyGenerator = 2,
                        records = [(KNum 1, plain_note)]\<rparr>)]\<rparr>)],
      console = [], dbConnections = []\<rparr>"

section \<open>Properties\<close>

subsection \<open>Property lists, stores and the page state\<close>

lemma map_of_alist_set: "map_of (alist_set k v ps) = (map_of ps)(k \<mapsto> v)"
  by (induction ps) auto

lemma set_fst_alist_set: "fst ` set (alist_set k v ps) = insert k (fst ` set ps)"
proof -
  have "fst ` set (alist_set k v ps) = dom (map_of (alist_set k v ps))"
    by (simp add: dom_map_of_conv_image_fst)
  also have "\<dots> = insert k (dom (map_of ps))"
    by (simp add: map_of_alist_set)
  finally show ?thesis by (simp add: dom_map_of_conv_image_fst)
qed

lemma map_fst_alist_set:
  "map fst (alist_set k v ps) = (if k \<in> fst ` set ps then map fst ps else map fst ps @ [k])"
proof (induction ps)
  case Nil
  show ?case by simp
next
  case (Cons p ps)
  show ?case
  proof (cases "k = fst p")
    case True
    then show ?thesis by (cases p) simp
  next
    case False
    with Cons show ?thesis by (cases p) auto
  qed
qed

lemma distinct_alist_set: "distinct (map fst ps) \<Longrightarrow> distinct (map fst (alist_set k v ps))"
  by (simp add: map_fst_alist_set)

lemma alist_set_same:
  "map_of ps k = Some v \<Longrightarrow> alist_set k v ps = ps"
  by (induction ps) (auto split: if_splits)

lemma idb_log [simp]: "idb (log l m st) = idb st"
  by (simp add: log_def)

lemma get_store_log [simp]: "get_store (log l m st) d s = get_store st d s"
  by (simp add: get_store_def)

lemma get_store_set_store_same:
  "get_store st d s = Some os0 \<Longrightarrow> get_store (set_store d s os st) d s = Some os"
  by (auto simp: get_store_def set_store_def set_database_def map_of_alist_set
           split: option.splits)

lemma get_store_set_store_other:
  "(d', s') \<noteq> (d, s) \<Longrightarrow> get_store (set_store d s os st) d' s' = get_store st d' s'"
  by (auto simp: get_store_def set_store_def set_database_def map_of_alist_set
           split: option.splits)

lemma records_bump_generator [simp]: "records (bump_generator k os) = records os"
  by (cases k) simp_all

lemma keyPath_bump_generator [simp]: "keyPath (bump_generator k os) = keyPath os"
  by (cases k) simp_all

lemma autoIncrement_bump_generator [simp]: "autoIncrement (bump_generator k os) = autoIncrement os"
  by (cases k) simp_all

subsection \<open>The order of properties\<close>

lemma set_insert_index: "set (insert_index i p ps) = insert p (set ps)"
  by (induction ps) (auto split: option.splits)

lemma map_of_insert_index:
  "fst p \<notin> fst ` set ps \<Longrightarrow> map_of (insert_index i p ps) = (map_of ps)(fst p \<mapsto> snd p)"
proof (induction ps)
  case Nil
  show ?case by simp
next
  case (Cons q qs)
  then have ne: "fst q \<noteq> fst p" and n: "fst p \<notin> fst ` set qs" by auto
  note ih = Cons.IH [OF n]
  show ?case
  proof (cases "\<exists>j. array_index (fst q) = Some j \<and> j < i")
    case True
    then have "insert_index i p (q # qs) = q # insert_index i p qs" by auto
    then show ?thesis using ih ne by (cases q) (auto simp: fun_eq_iff)
  next
    case False
    then have "insert_index i p (q # qs) = p # q # qs" by (auto split: option.splits)
    then show ?thesis by (cases p; cases q) (simp add: fun_eq_iff)
  qed
qed

lemma map_of_set_property: "map_of (set_property k v ps) = (map_of ps)(k \<mapsto> v)"
proof (cases "k \<in> set (map fst ps)")
  case True
  then show ?thesis by (simp add: set_property_def map_of_alist_set)
next
  case False
  then have n: "fst (k, v) \<notin> fst ` set ps" by simp
  show ?thesis
  proof (cases "array_index k")
    case None
    from False have "map_of ps k = None" by (simp add: map_of_eq_None_iff)
    with None False show ?thesis
      by (auto simp: set_property_def map_add_def fun_eq_iff split: option.splits)
  next
    case (Some i)
    with False map_of_insert_index [OF n, of i] show ?thesis by (simp add: set_property_def)
  qed
qed

lemma set_fst_set_property: "fst ` set (set_property k v ps) = insert k (fst ` set ps)"
proof -
  have "fst ` set (set_property k v ps) = dom (map_of (set_property k v ps))"
    by (simp add: dom_map_of_conv_image_fst)
  also have "\<dots> = insert k (dom (map_of ps))"
    by (simp add: map_of_set_property)
  finally show ?thesis by (simp add: dom_map_of_conv_image_fst)
qed

lemma set_set_property_subset: "set (set_property k v ps) \<subseteq> insert (k, v) (set ps)"
proof -
  have "set (alist_set k v ps) \<subseteq> insert (k, v) (set ps)"
    by (induction ps) (auto split: if_splits)
  then show ?thesis
    by (auto simp: set_property_def set_insert_index split: option.splits)
qed

lemma distinct_insert_index:
  "fst p \<notin> fst ` set ps \<Longrightarrow> distinct (map fst ps) \<Longrightarrow> distinct (map fst (insert_index i p ps))"
proof (induction ps)
  case Nil
  show ?case by simp
next
  case (Cons q qs)
  then have ne: "fst q \<noteq> fst p" and n: "fst p \<notin> fst ` set qs"
    and d: "distinct (map fst qs)" and nq: "fst q \<notin> fst ` set qs" by auto
  show ?case
  proof (cases "\<exists>j. array_index (fst q) = Some j \<and> j < i")
    case True
    then have e: "insert_index i p (q # qs) = q # insert_index i p qs" by auto
    have "fst q \<notin> fst ` set (insert_index i p qs)"
      using nq ne by (simp add: set_insert_index)
    with Cons.IH [OF n d] show ?thesis unfolding e by simp
  next
    case False
    then have "insert_index i p (q # qs) = p # q # qs" by (auto split: option.splits)
    with Cons.prems show ?thesis by simp
  qed
qed

lemma distinct_set_property:
  "distinct (map fst ps) \<Longrightarrow> distinct (map fst (set_property k v ps))"
  by (auto simp: set_property_def distinct_alist_set distinct_insert_index split: option.splits)

lemma array_index_show: "array_index k = Some i \<Longrightarrow> k = show_int i"
  by (auto simp: array_index_def Let_def split: option.splits if_splits)

lemma precedes_index:
  "array_index k = Some i \<Longrightarrow> precedes k' k \<longleftrightarrow> (\<exists>j. array_index k' = Some j \<and> j < i)"
  by (auto simp: precedes_def split: option.splits)

lemma precedes_name: "array_index k = None \<Longrightarrow> precedes k' k"
  by (simp add: precedes_def split: option.splits)

lemma precedes_trans: "precedes a b \<Longrightarrow> precedes b c \<Longrightarrow> precedes a c"
  by (auto simp: precedes_def split: option.splits)

lemma own_order_insert_index:
  assumes "array_index (fst p) = Some i" and "fst p \<notin> fst ` set ps"
    and "distinct (map fst ps)" and "own_property_order (map fst ps)"
  shows "own_property_order (map fst (insert_index i p ps))"
  using assms(2-4)
proof (induction ps)
  case Nil
  show ?case by (simp add: own_property_order_def)
next
  case (Cons q qs)
  then have ne: "fst q \<noteq> fst p" and n: "fst p \<notin> fst ` set qs"
    and d: "distinct (map fst qs)"
    and all: "\<forall>k \<in> set (map fst qs). precedes (fst q) k"
    and o: "own_property_order (map fst qs)"
    by (auto simp: own_property_order_def)
  show ?case
  proof (cases "\<exists>j. array_index (fst q) = Some j \<and> j < i")
    case True
    then have e: "insert_index i p (q # qs) = q # insert_index i p qs" by auto
    from True have "precedes (fst q) (fst p)" using assms(1) by (simp add: precedes_index)
    with all have "\<forall>k \<in> set (map fst (insert_index i p qs)). precedes (fst q) k"
      by (auto simp: set_insert_index)
    with Cons.IH [OF n d o] show ?thesis unfolding e by (simp add: own_property_order_def)
  next
    case False
    then have e: "insert_index i p (q # qs) = p # q # qs" by (auto split: option.splits)
    have pq: "precedes (fst p) (fst q)"
    proof (cases "array_index (fst q)")
      case None
      then show ?thesis using assms(1) by (simp add: precedes_def)
    next
      case (Some j)
      with False have "\<not> j < i" by simp
      moreover have "j \<noteq> i"
      proof
        assume "j = i"
        with Some have "fst q = show_int i" by (simp add: array_index_show)
        moreover from assms(1) have "fst p = show_int i" by (rule array_index_show)
        ultimately show False using ne by simp
      qed
      ultimately show ?thesis using assms(1) Some by (simp add: precedes_def)
    qed
    have "\<forall>k \<in> set (map fst qs). precedes (fst p) k"
      using all pq precedes_trans by blast
    with pq Cons.prems(3) show ?thesis unfolding e by (simp add: own_property_order_def)
  qed
qed

lemma own_order_alist_set:
  "k \<in> fst ` set ps \<Longrightarrow> map fst (alist_set k v ps) = map fst ps"
  by (simp add: map_fst_alist_set)

lemma own_order_append:
  assumes "own_property_order (map fst ps)" and "\<forall>q \<in> set ps. precedes (fst q) k"
  shows "own_property_order (map fst (ps @ [(k, v)]))"
  using assms by (auto simp: own_property_order_def sorted_wrt_append)

lemma own_order_set_property:
  assumes "distinct (map fst ps)" and "own_property_order (map fst ps)"
  shows "own_property_order (map fst (set_property k v ps))"
proof (cases "k \<in> set (map fst ps)")
  case True
  then show ?thesis using assms(2) by (simp add: set_property_def map_fst_alist_set)
next
  case False
  show ?thesis
  proof (cases "array_index k")
    case None
    then have "\<forall>q \<in> set ps. precedes (fst q) k" by (simp add: precedes_name)
    from own_order_append [OF assms(2) this] None False show ?thesis
      by (simp add: set_property_def)
  next
    case (Some i)
    have "own_property_order (map fst (insert_index i (k, v) ps))"
      using Some False assms by (intro own_order_insert_index) simp_all
    with Some False show ?thesis by (simp add: set_property_def)
  qed
qed

lemma insert_index_append:
  assumes "\<forall>q \<in> set ps. \<exists>j. array_index (fst q) = Some j \<and> j < i"
  shows "insert_index i p ps = ps @ [p]"
  using assms by (induction ps) auto

lemma set_property_append:
  assumes "k \<notin> fst ` set ps" and "\<forall>q \<in> set ps. precedes (fst q) k"
  shows "set_property k v ps = ps @ [(k, v)]"
proof (cases "array_index k")
  case None
  with assms(1) show ?thesis by (simp add: set_property_def)
next
  case (Some i)
  with assms(2) have "\<forall>q \<in> set ps. \<exists>j. array_index (fst q) = Some j \<and> j < i"
    by (simp add: precedes_index)
  then have "insert_index i (k, v) ps = ps @ [(k, v)]" by (rule insert_index_append)
  with Some assms(1) show ?thesis by (simp add: set_property_def)
qed

lemma alist_set_append_new:
  "k \<notin> fst ` set acc \<Longrightarrow> alist_set k v acc = acc @ [(k, v)]"
  by (induction acc) auto

lemma set_property_name:
  assumes "array_index k = None"
  shows "set_property k v ps = alist_set k v ps"
proof (cases "k \<in> set (map fst ps)")
  case True
  then show ?thesis by (simp add: set_property_def)
next
  case False
  then have "alist_set k v ps = ps @ [(k, v)]" by (simp add: alist_set_append_new)
  with False assms show ?thesis by (simp add: set_property_def)
qed

lemma array_index_not_digit: "digit_value c = None \<Longrightarrow> array_index (c # cs) = None"
  by (simp add: array_index_def)

lemmas set_property_names = set_property_name array_index_not_digit digit_value_def

subsection \<open>Base64: decoding inverts encoding\<close>

lemma b64_table:
  "list_all (\<lambda>n. b64_value (b64_char n) = Some n \<and> b64_char n \<noteq> CHR ''=''
      \<and> \<not> is_ascii_whitespace (b64_char n)) [0..<64]"
  by code_simp

lemma b64_char_props:
  assumes "n < 64"
  shows "b64_value (b64_char n) = Some n" and "b64_char n \<noteq> CHR ''=''"
    and "\<not> is_ascii_whitespace (b64_char n)"
proof -
  have "n \<in> set [0..<64]" using assms by simp
  with b64_table have "b64_value (b64_char n) = Some n \<and> b64_char n \<noteq> CHR ''=''
      \<and> \<not> is_ascii_whitespace (b64_char n)"
    unfolding list_all_iff by blast
  then show "b64_value (b64_char n) = Some n" and "b64_char n \<noteq> CHR ''=''"
    and "\<not> is_ascii_whitespace (b64_char n)" by simp_all
qed

lemma unat_byte_lt: "unat (a :: byte) < 256"
  using unsigned_less [of a, where 'a = nat] by simp

lemma byte_of_unat: "(of_nat (unat (a :: byte)) :: byte) = a"
  by simp

lemma sextets_lt: "\<forall>n \<in> set (sextets bs). n < 64"
proof (induction bs rule: sextets.induct)
  case 1
  show ?case by simp
next
  case (2 a)
  have "unat a < 256" by (rule unat_byte_lt)
  then show ?case by auto
next
  case (3 a b)
  have "unat a < 256" "unat b < 256" by (rule unat_byte_lt)+
  then show ?case by auto
next
  case (4 a b c rest)
  have "unat a < 256" "unat b < 256" "unat c < 256" by (rule unat_byte_lt)+
  with 4 show ?case by auto
qed

lemma div16: "(t::nat) < 16 \<Longrightarrow> (m * 16 + t) div 16 = m" by simp
lemma mod16: "(t::nat) < 16 \<Longrightarrow> (m * 16 + t) mod 16 = t" by simp
lemma div4: "(t::nat) < 4 \<Longrightarrow> (m * 4 + t) div 4 = m" by simp
lemma mod4: "(t::nat) < 4 \<Longrightarrow> (m * 4 + t) mod 4 = t" by simp

lemma regroup:
  fixes x y z :: nat
  assumes "y < 256" "z < 256"
  shows "x div 4 * 4 + (x mod 4 * 16 + y div 16) div 16 = x"
    and "(x mod 4 * 16 + y div 16) mod 16 * 16 + (y mod 16 * 4 + z div 64) div 4 = y"
    and "(y mod 16 * 4 + z div 64) mod 4 * 64 + z mod 64 = z"
proof -
  have t: "y div 16 < 16" using assms by simp
  have u: "z div 64 < 4" using assms by simp
  show "x div 4 * 4 + (x mod 4 * 16 + y div 16) div 16 = x"
    by (simp only: div16 [OF t] div_mult_mod_eq)
  show "(x mod 4 * 16 + y div 16) mod 16 * 16 + (y mod 16 * 4 + z div 64) div 4 = y"
    by (simp only: mod16 [OF t] div4 [OF u] div_mult_mod_eq)
  show "(y mod 16 * 4 + z div 64) mod 4 * 64 + z mod 64 = z"
    by (simp only: mod4 [OF u] div_mult_mod_eq)
qed

lemma decode_sextets_sextets: "decode_sextets (sextets bs) = bs"
proof (induction bs rule: sextets.induct)
  case 1
  show ?case by simp
next
  case (2 a)
  have "unat a div 4 * 4 + (unat a mod 4 * 16 + 0 div 16) div 16 = unat a"
    by (rule regroup(1) [of 0 0]) simp_all
  then show ?case
    by (simp only: sextets.simps append.simps decode_sextets.simps byte_of_unat div_0 add_0_right)
next
  case (3 a b)
  have b: "unat b < 256" by (rule unat_byte_lt)
  have "unat a div 4 * 4 + (unat a mod 4 * 16 + unat b div 16) div 16 = unat a"
    using regroup(1) [OF b b] .
  moreover have "(unat a mod 4 * 16 + unat b div 16) mod 16 * 16 + (unat b mod 16 * 4 + 0 div 64) div 4 = unat b"
    by (rule regroup(2) [OF b, of 0]) simp
  ultimately show ?case
    by (simp only: sextets.simps append.simps decode_sextets.simps byte_of_unat div_0 add_0_right)
next
  case (4 a b c rest)
  have b: "unat b < 256" and c: "unat c < 256" by (rule unat_byte_lt)+
  note r = regroup(1) [OF b c, of "unat a"] regroup(2) [OF b c, of "unat a"] regroup(3) [OF b c]
  show ?case
    by (simp only: sextets.simps append.simps decode_sextets.simps r 4 byte_of_unat)
qed


lemma strip_padding_append:
  assumes "2 \<le> length ys"
  shows "strip_padding (xs @ ys) = xs @ strip_padding ys"
proof -
  have d2: "drop (length (xs @ ys) - 2) (xs @ ys) = drop (length ys - 2) ys"
    using assms by simp
  have d1: "drop (length (xs @ ys) - 1) (xs @ ys) = drop (length ys - 1) ys"
    using assms by simp
  have t2: "take (length (xs @ ys) - 2) (xs @ ys) = xs @ take (length ys - 2) ys"
    using assms by simp
  have t1: "take (length (xs @ ys) - 1) (xs @ ys) = xs @ take (length ys - 1) ys"
    using assms by simp
  have l: "2 \<le> length (xs @ ys)" "1 \<le> length (xs @ ys)" "1 \<le> length ys"
    using assms by simp_all
  show ?thesis
    unfolding strip_padding_def d2 d1 t2 t1 using assms l by simp
qed

lemma length_base64: "length (base64 bs) mod 4 = 0"
  by (induction bs rule: base64.induct) simp_all

lemma base64_long: "bs \<noteq> [] \<Longrightarrow> 2 \<le> length (base64 bs)"
  by (induction bs rule: base64.induct) simp_all

lemma strip_padding_base64: "strip_padding (base64 bs) = map b64_char (sextets bs)"
proof (induction bs rule: base64.induct)
  case 1
  show ?case by (simp add: strip_padding_def)
next
  case (2 a)
  show ?case by (simp add: strip_padding_def)
next
  case (3 a b)
  have "unat b < 256" by (rule unat_byte_lt)
  then have "unat b mod 16 * 4 < 64" by simp
  then have "b64_char (unat b mod 16 * 4) \<noteq> CHR ''=''" by (rule b64_char_props(2))
  then show ?case by (simp add: strip_padding_def)
next
  case (4 a b c rest)
  let ?cs = "[b64_char (unat a div 4), b64_char ((unat a mod 4) * 16 + unat b div 16),
      b64_char ((unat b mod 16) * 4 + unat c div 64), b64_char (unat c mod 64)]"
  show ?case
  proof (cases "rest = []")
    case True
    have "unat c mod 64 < 64" by simp
    then have "b64_char (unat c mod 64) \<noteq> CHR ''=''" by (rule b64_char_props(2))
    then show ?thesis using True by (simp add: strip_padding_def)
  next
    case False
    from base64_long [OF this]
    have "strip_padding (?cs @ base64 rest) = ?cs @ strip_padding (base64 rest)"
      by (rule strip_padding_append)
    with 4 show ?thesis by simp
  qed
qed

lemma those_b64_value:
  "\<forall>n \<in> set ns. n < 64 \<Longrightarrow> those (map b64_value (map b64_char ns)) = Some ns"
  by (induction ns) (simp_all add: b64_char_props(1))

lemma length_sextets: "length (sextets bs) mod 4 \<noteq> 1"
  by (induction bs rule: sextets.induct) simp_all

lemma no_whitespace_base64: "filter (\<lambda>c. \<not> is_ascii_whitespace c) (base64 bs) = base64 bs"
proof -
  have eq: "\<not> is_ascii_whitespace CHR ''=''" by (simp add: is_ascii_whitespace_def)
  have "\<forall>c \<in> set (base64 bs). \<not> is_ascii_whitespace c"
  proof (induction bs rule: base64.induct)
    case 1
    show ?case by simp
  next
    case (2 a)
    have "unat a < 256" by (rule unat_byte_lt)
    then have "unat a div 4 < 64" "unat a mod 4 * 16 < 64" by simp_all
    then show ?case using eq by (simp add: b64_char_props(3))
  next
    case (3 a b)
    have "unat a < 256" "unat b < 256" by (rule unat_byte_lt)+
    then have "unat a div 4 < 64" "unat a mod 4 * 16 + unat b div 16 < 64" "unat b mod 16 * 4 < 64"
      by simp_all
    then show ?case using eq by (simp add: b64_char_props(3))
  next
    case (4 a b c rest)
    have "unat a < 256" "unat b < 256" "unat c < 256" by (rule unat_byte_lt)+
    then have "unat a div 4 < 64" "unat a mod 4 * 16 + unat b div 16 < 64"
      "unat b mod 16 * 4 + unat c div 64 < 64" "unat c mod 64 < 64"
      by simp_all
    then show ?case using 4 by (simp add: b64_char_props(3))
  qed
  then show ?thesis by (simp add: filter_id_conv)
qed

lemma atob_base64: "atob (base64 bs) = Some bs"
proof -
  have "atob (base64 bs) =
     (if length (map b64_char (sextets bs)) mod 4 = 1 then None
      else case those (map b64_value (map b64_char (sextets bs))) of
             None \<Rightarrow> None | Some vs \<Rightarrow> Some (decode_sextets vs))"
    unfolding atob_def Let_def no_whitespace_base64
    by (simp only: length_base64 strip_padding_base64 if_True refl)
  also have "\<dots> = Some (decode_sextets (sextets bs))"
    using length_sextets [of bs]
    by (simp only: those_b64_value [OF sextets_lt] length_map if_False option.case)
  finally show ?thesis by (simp only: decode_sextets_sextets)
qed

lemma split_on_one_comma:
  "c \<notin> set a \<Longrightarrow> c \<notin> set b \<Longrightarrow> split_on c (a @ c # b) = [a, b]"
proof (induction a)
  case Nil
  have "split_on c b = [b]" using Nil(2) by (induction b) auto
  then show ?case by simp
next
  case (Cons x a)
  then show ?case by auto
qed

subsection \<open>DroppableImageTarget: one image at most\<close>

lemma assign_key_id:
  assumes "assign_key os (imageObject file imageData now) = Inr (k, v, os1)"
  shows "get_prop v ''id'' = VStr ''current-image''"
proof (cases "keyPath os")
  case None
  with assms have "v = imageObject file imageData now"
    by (auto simp: assign_key_def split: if_splits)
  then show ?thesis by (simp add: imageObject_def)
next
  case (Some kp)
  show ?thesis
  proof (cases "extract_key kp (imageObject file imageData now)")
    case NoKey
    then have kp: "kp \<noteq> ''id''"
      by (auto simp: imageObject_def)
    from assms Some NoKey
    have "v = inject_key kp (keyGenerator os) (imageObject file imageData now)"
      by (auto simp: assign_key_def split: if_splits)
    then show ?thesis using kp
      by (simp add: imageObject_def map_of_set_property)
  next
    case InvalidKey
    with assms Some show ?thesis by (simp add: assign_key_def)
  next
    case (Key k')
    with assms Some have "v = imageObject file imageData now"
      by (auto simp: assign_key_def)
    then show ?thesis by (simp add: imageObject_def)
  qed
qed

lemma assign_key_records:
  "assign_key os item = Inr (k, v, os1) \<Longrightarrow> records os1 = records os"
  by (cases "keyPath os")
     (auto simp: assign_key_def split: if_splits extracted.splits)

lemma store_add_cleared:
  assumes "store_add (store_clear os) (imageObject file imageData now) = Inr os'"
  shows "\<exists>k v. records os' = [(k, v)] \<and> get_prop v ''id'' = VStr ''current-image''"
proof -
  from assms obtain k v os1
    where a: "assign_key (store_clear os) (imageObject file imageData now) = Inr (k, v, os1)"
      and os': "os' = os1\<lparr>records := records os1 @ [(k, v)]\<rparr>"
    by (auto simp: store_add_def split: sum.splits if_splits)
  from assign_key_records [OF a] have "records os1 = []" by (simp add: store_clear_def)
  with os' have "records os' = [(k, v)]" by simp
  with assign_key_id [OF a] show ?thesis by blast
qed

lemma storeImage_Stored:
  assumes "storeImage file now w st = (Stored, w', st')"
  shows "\<exists>store' k v. get_store st' ''windowImage'' ''images'' = Some store' \<and>
           records store' = [(k, v)] \<and> get_prop v ''id'' = VStr ''current-image''"
proof -
  from assms have ready: "db_ready w"
    by (auto simp: storeImage_def split: if_splits)
  from assms ready obtain store
    where store: "get_store st ''windowImage'' ''images'' = Some store"
    by (cases "get_store st ''windowImage'' ''images''") (auto simp: storeImage_def)
  let ?item = "imageObject file (readAsDataURL file) now"
  from assms ready store obtain store'
    where add: "store_add (store_clear store) ?item = Inr store'"
      and st': "st' = log Log ''Image stored successfully!''
                  (set_store ''windowImage'' ''images'' store'
                    (log Log ''Previous images cleared.'' st))"
    by (auto simp: storeImage_def Let_def split: sum.splits thrown.splits if_splits)
  have "get_store st' ''windowImage'' ''images'' = Some store'"
    unfolding st' using store by (simp add: get_store_set_store_same)
  with store_add_cleared [OF add] show ?thesis by blast
qed

lemma storeImage_completes:
  assumes "db_ready w" and "get_store st ''windowImage'' ''images'' = Some store"
    and "keyPath store = Some ''id''"
  shows "fst (storeImage file now w st) = Stored"
proof -
  have "assign_key (store_clear store) (imageObject file (readAsDataURL file) now)
        = Inr (KStr ''current-image'', imageObject file (readAsDataURL file) now, store_clear store)"
    using assms(3) by (simp add: assign_key_def store_clear_def imageObject_def)
  then have "\<exists>os'. store_add (store_clear store) (imageObject file (readAsDataURL file) now) = Inr os'"
    by (simp add: store_add_def store_clear_def)
  then show ?thesis using assms(1,2)
    by (auto simp: storeImage_def Let_def)
qed

lemma on_drop_ignored:
  assumes "files = [] \<or> \<not> starts_with (blob_type (hd files)) ''image/''"
  shows "snd (snd (on_drop files now w st)) = st"
  using assms by (cases files) (auto simp: on_drop_def Let_def)

text \<open>
  Claim C9. The image store keeps at most one image. After every \<open>storeImage\<close> that
  completes (the \<open>add\<close> request succeeds), the object store \<open>images\<close> of the database
  \<open>windowImage\<close> holds exactly one record, and its \<open>id\<close> is \<open>current-image\<close>, whatever the
  store held before: the store is cleared before the insert. With the database open and the
  store the widget creates (key path \<open>id\<close>), \<open>storeImage\<close> does complete. A drop with no
  file, or whose first file is not an image, leaves the page state as it is.
\<close>

theorem storeImage_keeps_one_image:
  "(storeImage file now w st = (Stored, w', st') \<longrightarrow>
      (\<exists>store' k v. get_store st' ''windowImage'' ''images'' = Some store' \<and>
         records store' = [(k, v)] \<and> get_prop v ''id'' = VStr ''current-image'')) \<and>
   (db_ready w \<and> get_store st ''windowImage'' ''images'' = Some store
      \<and> keyPath store = Some ''id'' \<longrightarrow> fst (storeImage file now w st) = Stored) \<and>
   (files = [] \<or> \<not> starts_with (blob_type (hd files)) ''image/'' \<longrightarrow>
      snd (snd (on_drop files now w st)) = st)"
  using storeImage_Stored storeImage_completes on_drop_ignored by blast

theorem storeImage_keeps_one_image_witness:
  "db_ready widget_ready \<and>
   get_store page_with_image_db ''windowImage'' ''images'' = Some image_store_empty \<and>
   keyPath image_store_empty = Some ''id'' \<and>
   fst (storeImage png_file 1700000000000 widget_ready page_with_image_db) = Stored \<and>
   (\<exists>store' k v.
      get_store (snd (snd (storeImage png_file 1700000000000 widget_ready page_with_image_db)))
        ''windowImage'' ''images'' = Some store' \<and>
      records store' = [(k, v)] \<and> get_prop v ''id'' = VStr ''current-image'') \<and>
   snd (snd (on_drop [] 1700000000000 widget_ready page_with_image_db)) = page_with_image_db"
proof -
  let ?r = "storeImage png_file 1700000000000 widget_ready page_with_image_db"
  have r: "db_ready widget_ready" by (simp add: widget_ready_def)
  have g: "get_store page_with_image_db ''windowImage'' ''images'' = Some image_store_empty"
    by (simp add: get_store_def page_with_image_db_def)
  have k: "keyPath image_store_empty = Some ''id''" by (simp add: image_store_empty_def)
  note inst = storeImage_keeps_one_image
    [of png_file 1700000000000 widget_ready page_with_image_db "fst (snd ?r)" "snd (snd ?r)"
        image_store_empty "[]"]
  from inst r g k have s: "fst ?r = Stored" by blast
  then have "?r = (Stored, fst (snd ?r), snd (snd ?r))"
    by (metis prod.collapse)
  with inst have "\<exists>store' k v. get_store (snd (snd ?r)) ''windowImage'' ''images'' = Some store' \<and>
      records store' = [(k, v)] \<and> get_prop v ''id'' = VStr ''current-image''" by blast
  moreover from inst
  have "snd (snd (on_drop [] 1700000000000 widget_ready page_with_image_db)) = page_with_image_db"
    by blast
  ultimately show ?thesis using r g k s by blast
qed

subsection \<open>What each operation leaves alone\<close>

lemma idb_connect [simp]: "idb (connect d st) = idb st"
  by (simp add: connect_def)

lemma console_connect [simp]: "console (connect d st) = console st"
  by (simp add: connect_def)

lemma map_of_idb_set_database:
  "map_of (idb (set_database d db st)) d' = (if d' = d then Some db else map_of (idb st) d')"
  by (simp add: set_database_def map_of_alist_set)

lemma map_of_idb_set_store_other:
  "d' \<noteq> d \<Longrightarrow> map_of (idb (set_store d s os st)) d' = map_of (idb st) d'"
  by (simp add: set_store_def map_of_idb_set_database split: option.splits)

lemma openDB_other:
  "d' \<noteq> d \<Longrightarrow> map_of (idb (snd (openDB d ver ss st))) d' = map_of (idb st) d'"
  by (simp add: openDB_def map_of_idb_set_database split: open_result.splits prod.splits)

lemma base64ToBlob_idb [simp]: "idb (snd (base64ToBlob b t st)) = idb st"
  by (simp add: base64ToBlob_def split: option.splits)

lemma restore_value_idb [simp]: "idb (snd (restore_value k v st)) = idb st"
proof (cases "base64ToBlob (get_prop v ''data'') (get_prop v ''type'') st")
  case (Pair r st1)
  have "idb st1 = idb st" using base64ToBlob_idb [of "get_prop v ''data''" "get_prop v ''type''" st]
    by (simp add: Pair)
  then show ?thesis
    by (simp add: restore_value_def Pair split: option.splits)
qed

lemma restore_fields_idb [simp]: "idb (snd (restore_fields ps st)) = idb st"
proof (induction ps arbitrary: st)
  case Nil
  show ?case by simp
next
  case (Cons p ps)
  obtain v st1 where v: "restore_value (fst p) (snd p) st = (v, st1)" by (cases "restore_value (fst p) (snd p) st")
  obtain ps' st2 where r: "restore_fields ps st1 = (ps', st2)" by (cases "restore_fields ps st1")
  have "idb st1 = idb st" using restore_value_idb [of "fst p" "snd p" st] by (simp add: v)
  moreover have "idb st2 = idb st1" using Cons.IH [of st1] by (simp add: r)
  ultimately show ?case by (simp add: v r)
qed

lemma restore_item_idb [simp]: "idb (snd (restore_item item st)) = idb st"
proof (cases item)
  case (VObj ps)
  obtain ps' st1 where r: "restore_fields ps st = (ps', st1)" by (cases "restore_fields ps st")
  have "idb st1 = idb st" using restore_fields_idb [of ps st] by (simp add: r)
  then show ?thesis by (simp add: VObj r)
next
  case (VArr xs)
  obtain ps' st1 where r: "restore_fields (zip (indices (length xs)) xs) st = (ps', st1)"
    by (cases "restore_fields (zip (indices (length xs)) xs) st")
  have "idb st1 = idb st" using restore_fields_idb [of "zip (indices (length xs)) xs" st] by (simp add: r)
  then show ?thesis by (simp add: VArr r)
qed simp_all

lemma restore_items_other:
  "d' \<noteq> d \<Longrightarrow> map_of (idb (snd (restore_items d s items st))) d' = map_of (idb st) d'"
proof (induction items arbitrary: st)
  case Nil
  show ?case by simp
next
  case (Cons item items)
  obtain item' st1 where i: "restore_item item st = (item', st1)" by (cases "restore_item item st")
  have st1: "idb st1 = idb st" using restore_item_idb [of item st] by (simp add: i)
  show ?case
  proof (cases "get_store st1 d s")
    case None
    then show ?thesis by (simp add: i st1)
  next
    case (Some store)
    show ?thesis
    proof (cases "store_put store item'")
      case (Inl e)
      then show ?thesis by (simp add: i Some st1)
    next
      case (Inr store')
      have "map_of (idb (snd (restore_items d s items (set_store d s store' st1)))) d'
            = map_of (idb (set_store d s store' st1)) d'"
        using Cons.IH [OF Cons.prems] .
      also have "\<dots> = map_of (idb st) d'"
        using Cons.prems by (simp add: map_of_idb_set_store_other st1)
      finally show ?thesis by (simp add: i Some Inr)
    qed
  qed
qed

lemma restore_stores_other:
  "d' \<noteq> d \<Longrightarrow> map_of (idb (snd (restore_stores d data db ss st))) d' = map_of (idb st) d'"
proof (induction ss arbitrary: st)
  case Nil
  show ?case by simp
next
  case (Cons s ss)
  let ?items = "get_prop data s"
  show ?case
  proof (cases "\<not> truthy ?items \<or> get_prop ?items ''length'' = VNum 0")
    case True
    then show ?thesis using Cons.IH [OF Cons.prems, of st] by (simp add: Let_def)
  next
    case skip: False
    show ?thesis
    proof (cases "s \<notin> set (objectStoreNames db)")
      case True
      then show ?thesis using skip Cons.IH [OF Cons.prems] by (simp add: Let_def)
    next
      case found: False
      show ?thesis
      proof (cases "for_of_items ?items")
        case (Inl e)
        then show ?thesis using skip found by (simp add: Let_def)
      next
        case (Inr items)
        obtain r st1 where r: "restore_items d s items st = (r, st1)" by (cases "restore_items d s items st")
        have st1: "map_of (idb st1) d' = map_of (idb st) d'"
          using restore_items_other [OF Cons.prems, of s items st] by (simp add: r)
        show ?thesis
        proof (cases r)
          case (Inl e)
          then show ?thesis using skip found Inr r st1 by (simp add: Let_def)
        next
          case (Inr u)
          then show ?thesis using skip found \<open>for_of_items ?items = Inr items\<close> r st1
              Cons.IH [OF Cons.prems, of st1] by (simp add: Let_def)
        qed
      qed
    qed
  qed
qed

lemma restore_dbs_other:
  "d' \<notin> set ks \<Longrightarrow> map_of (idb (snd (restore_dbs pd ks st))) d' = map_of (idb st) d'"
proof (induction ks arbitrary: st)
  case Nil
  show ?case by simp
next
  case (Cons d ks)
  then have ne: "d' \<noteq> d" and rest: "d' \<notin> set ks" by auto
  show ?case
  proof (cases "hasOwnProperty_call pd d")
    case (Inl e)
    then show ?thesis by simp
  next
    case (Inr b)
    show ?thesis
    proof (cases b)
      case False
      then show ?thesis using Inr Cons.IH [OF rest] by simp
    next
      case True
      show ?thesis
      proof (cases "Object_keys (get_prop pd d)")
        case (Inl e)
        then show ?thesis using Inr True by (simp add: Let_def)
      next
        case keys: (Inr ss)
        obtain o1 st1 where o: "openDB d (Some 1) ss st = (o1, st1)" by (cases "openDB d (Some 1) ss st")
        have st1: "map_of (idb st1) d' = map_of (idb st) d'"
          using openDB_other [OF ne, of "Some 1" ss st] unfolding o snd_conv .
        show ?thesis
        proof (cases o1)
          case (Inl e)
          then show ?thesis using Inr True keys o st1 by (simp add: Let_def)
        next
          case db: (Inr db)
          obtain r st2 where r: "restore_stores d (get_prop pd d) db ss st1 = (r, st2)"
            by (cases "restore_stores d (get_prop pd d) db ss st1")
          have st2: "map_of (idb st2) d' = map_of (idb st) d'"
            using restore_stores_other [OF ne, of "get_prop pd d" db ss st1] st1 by (simp add: r)
          show ?thesis
          proof (cases r)
            case (Inl e)
            then show ?thesis using Inr True keys o db r st2 by (simp add: Let_def)
          next
            case (Inr u)
            then show ?thesis using \<open>hasOwnProperty_call pd d = Inr b\<close> True keys o db r st2
                Cons.IH [OF rest, of st2] by (simp add: Let_def)
          qed
        qed
      qed
    qed
  qed
qed

lemma storeImage_other:
  "d' \<noteq> ''windowImage'' \<Longrightarrow>
   map_of (idb (snd (snd (storeImage file now w st)))) d' = map_of (idb st) d'"
  by (auto simp: storeImage_def Let_def map_of_idb_set_store_other
           split: option.splits sum.splits thrown.splits)

lemma openDB_None_keeps:
  assumes "map_of (idb st) d' = Some db"
  shows "map_of (idb (snd (openDB d None ss st))) d' = Some db"
proof (cases "map_of (idb st) d")
  case None
  with assms have "d' \<noteq> d" by auto
  then show ?thesis using assms None
    by (simp add: openDB_def indexedDB_open_def map_of_idb_set_database split: prod.splits)
next
  case (Some db0)
  then show ?thesis using assms by (simp add: openDB_def indexedDB_open_def)
qed

lemma idb_console_update [simp]: "idb (st\<lparr>console := c\<rparr>) = idb st"
  by simp

lemma backup_cursor_idb: "idb (snd (backup_cursor readable rs items st)) = idb st"
  by (induction rs arbitrary: items st) (auto simp: Let_def split: prod.splits)

lemma backup_stores_idb: "idb (snd (backup_stores readable db ss stores st)) = idb st"
proof (induction ss arbitrary: stores st)
  case Nil
  show ?case by simp
next
  case (Cons s ss)
  show ?case
  proof (cases "map_of (objectStores db) s")
    case None
    then show ?thesis by simp
  next
    case (Some store)
    obtain r st1 where c: "backup_cursor readable (cursor_records store) [] st = (r, st1)"
      by (cases "backup_cursor readable (cursor_records store) [] st")
    have i: "idb st1 = idb st"
      using backup_cursor_idb [of readable "cursor_records store" "[]" st] by (simp add: c)
    show ?thesis
      using Some c i Cons.IH by (cases r) simp_all
  qed
qed

lemma backup_dbs_keeps:
  "map_of (idb st) d' = Some db \<Longrightarrow>
   map_of (idb (snd (backup_dbs readable names data st))) d' = Some db"
proof (induction names arbitrary: data st)
  case Nil
  then show ?case by simp
next
  case (Cons d names)
  obtain o1 st1 where o: "openDB d None [] st = (o1, st1)" by (cases "openDB d None [] st")
  have st1: "map_of (idb st1) d' = Some db"
    using openDB_None_keeps [OF Cons.prems, of d "[]"] by (simp add: o)
  show ?case
  proof (cases o1)
    case (Inl e)
    then show ?thesis using o st1 by simp
  next
    case (Inr database)
    obtain r st2 where b: "backup_stores readable database (objectStoreNames database) [] st1 = (r, st2)"
      by (cases "backup_stores readable database (objectStoreNames database) [] st1")
    have "idb st2 = idb st1"
      using backup_stores_idb [of readable database "objectStoreNames database" "[]" st1]
      by (simp add: b)
    with st1 have st2: "map_of (idb st2) d' = Some db" by simp
    show ?thesis
      using o Inr b st2 Cons.IH [OF st2] by (cases r) simp_all
  qed
qed

lemma those_string_of_None:
  "\<exists>x \<in> set xs. string_of x = None \<Longrightarrow> those (map string_of xs) = None"
  by (induction xs) (auto split: option.splits)

lemma restore_dbs_rejected:
  "restore_dbs pd ks st = (Rejected e, st') \<Longrightarrow>
     (\<exists>m. e = TypeErrorObj m) \<or>
     (\<exists>d m. d \<in> set ks \<and> e = ErrorObj (''Restoration failed for '' @ d @ '': '' @ m) \<and>
        console st' \<noteq> [] \<and> last (console st') = (Err, ''Error during restore of '' @ d @ '':''))"
proof (induction ks arbitrary: st)
  case Nil
  then show ?case by simp
next
  case (Cons d ks)
  show ?case
  proof (cases "hasOwnProperty_call pd d")
    case (Inl e0)
    then have "\<exists>m. e0 = TypeErrorObj m"
      by (cases pd) (auto split: option.splits)
    with Cons.prems Inl show ?thesis by auto
  next
    case has: (Inr b)
    show ?thesis
    proof (cases b)
      case False
      with Cons.prems has have "restore_dbs pd ks st = (Rejected e, st')" by simp
      from Cons.IH [OF this] show ?thesis by auto
    next
      case True
      show ?thesis
      proof (cases "Object_keys (get_prop pd d)")
        case (Inl e0)
        then have "\<exists>m. e0 = TypeErrorObj m"
          by (cases "get_prop pd d") auto
        with Cons.prems has True Inl show ?thesis by (auto simp: Let_def)
      next
        case keys: (Inr ss)
        obtain r st2 where r:
          "(case openDB d (Some 1) ss st of
              (Inl e, st1) \<Rightarrow> (Inl e, st1)
            | (Inr db, st1) \<Rightarrow> restore_stores d (get_prop pd d) db ss st1) = (r, st2)"
          by (cases "case openDB d (Some 1) ss st of
              (Inl e, st1) \<Rightarrow> (Inl e, st1)
            | (Inr db, st1) \<Rightarrow> restore_stores d (get_prop pd d) db ss st1")
        show ?thesis
        proof (cases r)
          case (Inl error)
          with Cons.prems has True keys r
          have "e = ErrorObj (''Restoration failed for '' @ d @ '': '' @ message_of error)"
            and "st' = log Err (''Error during restore of '' @ d @ '':'') st2"
            by (simp_all add: Let_def)
          then show ?thesis by (auto simp: log_def)
        next
          case (Inr u)
          with Cons.prems has True keys r
          have "restore_dbs pd ks st2 = (Rejected e, st')" by (simp add: Let_def)
          from Cons.IH [OF this] show ?thesis by auto
        qed
      qed
    qed
  qed
qed

lemma restore_half_backup:
  "restore half_backup page_with_image_db =
     (Rejected (ErrorObj ''Restoration failed for windowImage: Restoration failed for an item in windowImage.images.''),
      \<lparr>idb = [(''windowImage'', \<lparr>db_version = 1, objectStores =
                 [(''images'', image_store_empty\<lparr>records := [(KStr ''a'', VObj [(''id'', VStr ''a'')])]\<rparr>)]\<rparr>)],
       console = [(Err, ''Error putting item into windowImage.images:''),
                  (Err, ''Error during restore of windowImage:'')],
       dbConnections = [''windowImage'']\<rparr>)"
  by code_simp

subsection \<open>How failures are handled\<close>

lemma storeImage_failure:
  assumes "fst (storeImage file now w st) \<noteq> Stored"
  shows "fst (snd (storeImage file now w st)) = w"
    and "idb (snd (snd (storeImage file now w st))) = idb st"
  using assms
  by (auto simp: storeImage_def Let_def split: option.splits sum.splits thrown.splits if_splits)

lemma restore_value_null:
  assumes "is_file_data v" and "base64ToBlob_try (get_prop v ''data'') (get_prop v ''type'') = None"
  shows "restore_value key v st
     = (VNull, log Warn (''Failed to convert base64 to Blob for key: '' @ quoted key
                          @ ''. Setting to null.'')
                 (log Err ''Error converting base64 to blob:'' st))"
  using assms by (simp add: restore_value_def is_file_data_def base64ToBlob_def)

text \<open>
  Claim C4, as stated, fails: \<open>restore\<close> signals a failure to its caller. Given a string
  that is not JSON it rejects with an \<open>Error\<close>.
\<close>

theorem restore_rejects_counterexample:
  "fst (restore (Malformed ''{'') page_with_image_db)
     = Rejected (ErrorObj ''Invalid JSON string provided for restoration.'')"
  by (simp add: restore_def)

text \<open>
  Claim C4, amended. Failures are not handled by console logging alone.

  In the image store, \<open>storeImage\<close> without an open database logs an error and returns, and
  whenever \<open>storeImage\<close> does not store the image, the image shown and the databases are as
  they were. \<open>initDatabase\<close>, when the open request fails with a \<open>VersionError\<close>, logs an
  error and rejects its promise.

  The backup and restore helper signals failures to its caller. The constructor throws when
  an element of \<open>dbNames\<close> is not a string. \<open>restore\<close> rejects on a string that is not
  JSON, and leaves the page as it was. Every other rejection of \<open>restore\<close> is either a
  TypeError raised outside its \<open>try\<close> or an \<open>Error\<close> naming the database, thrown after the
  failure has been logged to the console. Three failures inside \<open>backup\<close> and \<open>restore\<close>
  are handled by logging, after which the operation goes on: a Blob that the \<open>FileReader\<close>
  cannot read (an error is logged, the property becomes \<open>null\<close>), a failed conversion from
  base64 (an error and a warning are logged, the property becomes \<open>null\<close>) and an object
  store that the database does not have (a warning is logged, the store is skipped).

  The page reports failures to the user. When \<open>restore\<close> rejects, the click handler logs
  the error and shows \<open>Loading failed:\<close> with its message in the message box; when the
  chosen file cannot be read, it logs and shows \<open>Error reading file\<close>. One failure is
  neither logged by the page nor reported: when the promise of \<open>backup\<close> is never settled,
  the handler of the backup button stops at its \<open>await\<close>, and the message box keeps
  \<open>Saving backup disk...\<close>.
\<close>

theorem failure_handling:
  "(\<not> db_ready w \<longrightarrow>
      storeImage img now w st = (NotInitialized, w, log Err ''Database not initialized.'' st)) \<and>
   (fst (storeImage img now w st) \<noteq> Stored \<longrightarrow>
      fst (snd (storeImage img now w st)) = w \<and>
      idb (snd (snd (storeImage img now w st))) = idb st) \<and>
   (indexedDB_open (idb st) ''windowImage'' (Some 1) = VersionError \<longrightarrow>
      initDatabase w st
        = (Rejected (Reason ''Error opening database''), w, log Err ''IndexedDB error:'' st)) \<and>
   ((\<exists>x \<in> set xs. string_of x = None) \<longrightarrow>
      new_IndexedDBBackupRestore (VArr xs) = Inl (ErrorObj ''dbNames must be an array of strings.'')) \<and>
   restore (Malformed s) st
     = (Rejected (ErrorObj ''Invalid JSON string provided for restoration.''), st) \<and>
   (restore (Document j) st = (Rejected e, st') \<longrightarrow>
      (\<exists>m. e = TypeErrorObj m) \<or>
      (\<exists>d m. e = ErrorObj (''Restoration failed for '' @ d @ '': '' @ m) \<and>
         console st' \<noteq> [] \<and> last (console st') = (Err, ''Error during restore of '' @ d @ '':''))) \<and>
   (\<not> readable b \<longrightarrow>
      backup_fields readable ((key, VBlob b) # ps)
        = ((key, VNull) # fst (backup_fields readable ps), True,
           (Err, ''Error converting file to base64 for key '' @ quoted key @ '':'')
             # snd (snd (backup_fields readable ps)))) \<and>
   (is_file_data v \<and> base64ToBlob_try (get_prop v ''data'') (get_prop v ''type'') = None \<longrightarrow>
      restore_value key v st
        = (VNull, log Warn (''Failed to convert base64 to Blob for key: '' @ quoted key
                             @ ''. Setting to null.'')
                    (log Err ''Error converting base64 to blob:'' st))) \<and>
   (get_prop data storeName = VArr (x # items) \<and> storeName \<notin> set (objectStoreNames db) \<longrightarrow>
      restore_stores d data db (storeName # rest) st
        = restore_stores d data db rest
            (log Warn (''Object store '' @ quoted storeName @ '' not found in '' @ quoted d
                        @ ''. Skipping restore for this store.'') st)) \<and>
   (restore jsonString st = (Rejected e', st1) \<longrightarrow>
      restore_click (FileText jsonString) st
        = (Fulfilled (), [''Loading disk...'', ''Loading failed: '' @ message_of e' @ ''.''],
           closeConnections (log Err ''Loading failed:'' st1))) \<and>
   restore_click UnreadableFile st
     = (Fulfilled (), [''Loading disk...'', ''Error reading file. Check console for errors.''],
        log Err ''File reading error:'' st) \<and>
   (fst (backup readable DB_NAMES st) = Pending \<longrightarrow>
      backup_click readable st
        = (Pending, [''Saving backup disk...''], snd (backup readable DB_NAMES st)))"
proof (intro conjI impI)
  assume "\<not> db_ready w"
  then show "storeImage img now w st = (NotInitialized, w, log Err ''Database not initialized.'' st)"
    by (simp add: storeImage_def)
next
  assume f: "fst (storeImage img now w st) \<noteq> Stored"
  then show "fst (snd (storeImage img now w st)) = w" by (rule storeImage_failure)
  from f show "idb (snd (snd (storeImage img now w st))) = idb st" by (rule storeImage_failure)
next
  assume "indexedDB_open (idb st) ''windowImage'' (Some 1) = VersionError"
  then show "initDatabase w st
        = (Rejected (Reason ''Error opening database''), w, log Err ''IndexedDB error:'' st)"
    by (simp add: initDatabase_def)
next
  assume "\<exists>x \<in> set xs. string_of x = None"
  then show "new_IndexedDBBackupRestore (VArr xs) = Inl (ErrorObj ''dbNames must be an array of strings.'')"
    by (simp add: new_IndexedDBBackupRestore_def those_string_of_None)
next
  show "restore (Malformed s) st
     = (Rejected (ErrorObj ''Invalid JSON string provided for restoration.''), st)"
    by (simp add: restore_def)
next
  assume "restore (Document j) st = (Rejected e, st')"
  then have "restore_dbs (json_value j) (for_in_keys (json_value j)) st = (Rejected e, st')"
    by (simp add: restore_def)
  from restore_dbs_rejected [OF this]
  show "(\<exists>m. e = TypeErrorObj m) \<or>
      (\<exists>d m. e = ErrorObj (''Restoration failed for '' @ d @ '': '' @ m) \<and>
         console st' \<noteq> [] \<and> last (console st') = (Err, ''Error during restore of '' @ d @ '':''))"
    by blast
next
  assume "\<not> readable b"
  then show "backup_fields readable ((key, VBlob b) # ps)
        = ((key, VNull) # fst (backup_fields readable ps), True,
           (Err, ''Error converting file to base64 for key '' @ quoted key @ '':'')
             # snd (snd (backup_fields readable ps)))"
    by (simp split: prod.splits)
next
  assume "is_file_data v \<and> base64ToBlob_try (get_prop v ''data'') (get_prop v ''type'') = None"
  then show "restore_value key v st
        = (VNull, log Warn (''Failed to convert base64 to Blob for key: '' @ quoted key
                             @ ''. Setting to null.'')
                    (log Err ''Error converting base64 to blob:'' st))"
    by (simp add: restore_value_null)
next
  assume "get_prop data storeName = VArr (x # items) \<and> storeName \<notin> set (objectStoreNames db)"
  then show "restore_stores d data db (storeName # rest) st
        = restore_stores d data db rest
            (log Warn (''Object store '' @ quoted storeName @ '' not found in '' @ quoted d
                        @ ''. Skipping restore for this store.'') st)"
    by simp
next
  assume "restore jsonString st = (Rejected e', st1)"
  then show "restore_click (FileText jsonString) st
        = (Fulfilled (), [''Loading disk...'', ''Loading failed: '' @ message_of e' @ ''.''],
           closeConnections (log Err ''Loading failed:'' st1))"
    by (simp add: restore_click_def)
next
  show "restore_click UnreadableFile st
     = (Fulfilled (), [''Loading disk...'', ''Error reading file. Check console for errors.''],
        log Err ''File reading error:'' st)"
    by (simp add: restore_click_def)
next
  assume "fst (backup readable DB_NAMES st) = Pending"
  then show "backup_click readable st
        = (Pending, [''Saving backup disk...''], snd (backup readable DB_NAMES st))"
    by (cases "backup readable DB_NAMES st") (simp add: backup_click_def)
qed

theorem failure_handling_witness:
  "\<not> db_ready widget_new \<and>
   storeImage png_file 1700000000000 widget_new page_with_image_db
     = (NotInitialized, widget_new, log Err ''Database not initialized.'' page_with_image_db) \<and>
   fst (storeImage png_file 1700000000000 widget_new page_with_image_db) \<noteq> Stored \<and>
   fst (snd (storeImage png_file 1700000000000 widget_new page_with_image_db)) = widget_new \<and>
   idb (snd (snd (storeImage png_file 1700000000000 widget_new page_with_image_db)))
     = idb page_with_image_db \<and>
   indexedDB_open (idb page_newer_db) ''windowImage'' (Some 1) = VersionError \<and>
   initDatabase widget_new page_newer_db
     = (Rejected (Reason ''Error opening database''), widget_new,
        log Err ''IndexedDB error:'' page_newer_db) \<and>
   (\<exists>x \<in> set [VStr ''kalvNotesDB'', VNum 7]. string_of x = None) \<and>
   new_IndexedDBBackupRestore (VArr [VStr ''kalvNotesDB'', VNum 7])
     = Inl (ErrorObj ''dbNames must be an array of strings.'') \<and>
   fst (restore half_backup page_with_image_db)
     = Rejected (ErrorObj ''Restoration failed for windowImage: Restoration failed for an item in windowImage.images.'') \<and>
   ((\<exists>m. ErrorObj ''Restoration failed for windowImage: Restoration failed for an item in windowImage.images.''
          = TypeErrorObj m) \<or>
    (\<exists>d m. ErrorObj ''Restoration failed for windowImage: Restoration failed for an item in windowImage.images.''
            = ErrorObj (''Restoration failed for '' @ d @ '': '' @ m) \<and>
       console (snd (restore half_backup page_with_image_db)) \<noteq> [] \<and>
       last (console (snd (restore half_backup page_with_image_db)))
         = (Err, ''Error during restore of '' @ d @ '':''))) \<and>
   \<not> all_but_a_txt text_file \<and>
   backup_fields all_but_a_txt [(''file'', VBlob text_file)]
     = ([(''file'', VNull)], True, [(Err, ''Error converting file to base64 for key 'file':'')]) \<and>
   is_file_data (VObj [(''_indexedDB_file_data'', VBool True), (''data'', VStr ''x'')]) \<and>
   fst (restore_value ''file'' (VObj [(''_indexedDB_file_data'', VBool True), (''data'', VStr ''x'')])
          page_with_image_db) = VNull \<and>
   console (snd (restore_value ''file'' (VObj [(''_indexedDB_file_data'', VBool True), (''data'', VStr ''x'')])
          page_with_image_db))
     = [(Err, ''Error converting base64 to blob:''),
        (Warn, ''Failed to convert base64 to Blob for key: 'file'. Setting to null.'')] \<and>
   ''thumbnails'' \<notin> set (objectStoreNames \<lparr>db_version = 1, objectStores = [(''images'', image_store_empty)]\<rparr>) \<and>
   restore_stores ''windowImage'' (VObj [(''thumbnails'', VArr [VObj [(''id'', VNum 1)]])])
       \<lparr>db_version = 1, objectStores = [(''images'', image_store_empty)]\<rparr> [''thumbnails'']
       page_with_image_db
     = (Inr (), log Warn ''Object store 'thumbnails' not found in 'windowImage'. Skipping restore for this store.''
                  page_with_image_db) \<and>
   restore_click (FileText (Malformed ''{'')) page_with_image_db
     = (Fulfilled (),
        [''Loading disk...'', ''Loading failed: Invalid JSON string provided for restoration..''],
        closeConnections (log Err ''Loading failed:'' page_with_image_db)) \<and>
   fst (backup every_blob DB_NAMES page_with_attachment) = Pending \<and>
   backup_click every_blob page_with_attachment
     = (Pending, [''Saving backup disk...''], snd (backup every_blob DB_NAMES page_with_attachment))"
proof -
  let ?v = "VObj [(''_indexedDB_file_data'', VBool True), (''data'', VStr ''x'')]"
  let ?j = "JObj [(''windowImage'',
       JObj [(''images'', JArr [JObj [(''id'', JStr ''a'')], JObj [(''name'', JStr ''b'')]])])]"
  let ?e = "ErrorObj ''Restoration failed for windowImage: Restoration failed for an item in windowImage.images.''"
  let ?st' = "snd (restore half_backup page_with_image_db)"
  let ?db = "\<lparr>db_version = 1, objectStores = [(''images'', image_store_empty)]\<rparr>"
  let ?data = "VObj [(''thumbnails'', VArr [VObj [(''id'', VNum 1)]])]"
  let ?si = "storeImage png_file 1700000000000 widget_new page_with_image_db"
  have a: "\<not> db_ready widget_new" by (simp add: widget_new_def)
  have v: "indexedDB_open (idb page_newer_db) ''windowImage'' (Some 1) = VersionError"
    by (simp add: indexedDB_open_def page_newer_db_def)
  have x: "\<exists>x \<in> set [VStr ''kalvNotesDB'', VNum 7]. string_of x = None" by simp
  have f: "fst (restore half_backup page_with_image_db) = Rejected ?e"
    by (simp add: restore_half_backup)
  have hb: "half_backup = Document ?j" by (simp add: half_backup_def)
  have rj: "restore (Document ?j) page_with_image_db = (Rejected ?e, ?st')"
    unfolding hb [symmetric] using f by (metis prod.collapse)
  have u: "\<not> all_but_a_txt text_file" by (simp add: all_but_a_txt_def text_file_def)
  have m: "is_file_data ?v \<and> base64ToBlob_try (get_prop ?v ''data'') (get_prop ?v ''type'') = None"
    by code_simp
  have n: "get_prop ?data ''thumbnails'' = VArr [VObj [(''id'', VNum 1)]]
      \<and> ''thumbnails'' \<notin> set (objectStoreNames ?db)"
    by (simp add: objectStoreNames_def)
  have r: "restore (Malformed ''{'') page_with_image_db
      = (Rejected (ErrorObj ''Invalid JSON string provided for restoration.''), page_with_image_db)"
    by (simp add: restore_def)
  note inst = failure_handling
    [where w = widget_new and img = png_file and now = 1700000000000 and st = page_with_image_db
       and xs = "[VStr ''kalvNotesDB'', VNum 7]" and s = "''{''" and j = ?j and e = ?e and st' = ?st'
       and readable = all_but_a_txt and b = text_file and key = "''file''" and ps = "[]"
       and v = ?v and data = ?data and storeName = "''thumbnails''" and x = "VObj [(''id'', VNum 1)]"
       and items = "[]" and db = ?db and d = "''windowImage''" and rest = "[]"
       and jsonString = "Malformed ''{''"
       and e' = "ErrorObj ''Invalid JSON string provided for restoration.''"
       and ?st1.0 = page_with_image_db]
  from inst a have 1: "?si = (NotInitialized, widget_new, log Err ''Database not initialized.'' page_with_image_db)"
    by blast
  then have 2: "fst ?si \<noteq> Stored" by simp
  from inst 2 have 3: "fst (snd ?si) = widget_new" and 4: "idb (snd (snd ?si)) = idb page_with_image_db"
    by blast+
  from failure_handling [where w = widget_new and st = page_newer_db,
      THEN conjunct2, THEN conjunct2, THEN conjunct1] v
  have 5: "initDatabase widget_new page_newer_db
     = (Rejected (Reason ''Error opening database''), widget_new,
        log Err ''IndexedDB error:'' page_newer_db)" by blast
  from inst x have 6: "new_IndexedDBBackupRestore (VArr [VStr ''kalvNotesDB'', VNum 7])
     = Inl (ErrorObj ''dbNames must be an array of strings.'')" by blast
  from inst rj have 7: "(\<exists>m. ?e = TypeErrorObj m) \<or>
      (\<exists>d m. ?e = ErrorObj (''Restoration failed for '' @ d @ '': '' @ m) \<and>
         console ?st' \<noteq> [] \<and> last (console ?st') = (Err, ''Error during restore of '' @ d @ '':''))"
    by blast
  from inst u have "backup_fields all_but_a_txt ((''file'', VBlob text_file) # [])
        = ((''file'', VNull) # fst (backup_fields all_but_a_txt []), True,
           (Err, ''Error converting file to base64 for key '' @ quoted ''file'' @ '':'')
             # snd (snd (backup_fields all_but_a_txt [])))" by blast
  then have 8: "backup_fields all_but_a_txt [(''file'', VBlob text_file)]
     = ([(''file'', VNull)], True, [(Err, ''Error converting file to base64 for key 'file':'')])"
    by (simp add: quoted_def)
  from inst m have "restore_value ''file'' ?v page_with_image_db
        = (VNull, log Warn (''Failed to convert base64 to Blob for key: '' @ quoted ''file''
                             @ ''. Setting to null.'')
                    (log Err ''Error converting base64 to blob:'' page_with_image_db))" by blast
  then have 9: "fst (restore_value ''file'' ?v page_with_image_db) = VNull"
    and 10: "console (snd (restore_value ''file'' ?v page_with_image_db))
     = [(Err, ''Error converting base64 to blob:''),
        (Warn, ''Failed to convert base64 to Blob for key: 'file'. Setting to null.'')]"
    by (simp_all add: quoted_def log_def page_with_image_db_def)
  from inst n have "restore_stores ''windowImage'' ?data ?db (''thumbnails'' # []) page_with_image_db
        = restore_stores ''windowImage'' ?data ?db []
            (log Warn (''Object store '' @ quoted ''thumbnails'' @ '' not found in ''
                        @ quoted ''windowImage'' @ ''. Skipping restore for this store.'')
               page_with_image_db)" by blast
  then have 11: "restore_stores ''windowImage'' ?data ?db [''thumbnails''] page_with_image_db
     = (Inr (), log Warn ''Object store 'thumbnails' not found in 'windowImage'. Skipping restore for this store.''
                  page_with_image_db)"
    by (simp add: quoted_def)
  from inst r have "restore_click (FileText (Malformed ''{'')) page_with_image_db
        = (Fulfilled (), [''Loading disk...'', ''Loading failed: ''
              @ message_of (ErrorObj ''Invalid JSON string provided for restoration.'') @ ''.''],
           closeConnections (log Err ''Loading failed:'' page_with_image_db))" by blast
  then have 12: "restore_click (FileText (Malformed ''{'')) page_with_image_db
     = (Fulfilled (),
        [''Loading disk...'', ''Loading failed: Invalid JSON string provided for restoration..''],
        closeConnections (log Err ''Loading failed:'' page_with_image_db))" by simp
  have q: "fst (backup every_blob DB_NAMES page_with_attachment) = Pending" by code_simp
  from q failure_handling
    [where w = widget_new and img = png_file and now = 1700000000000 and st = page_with_attachment
       and xs = "[VStr ''kalvNotesDB'', VNum 7]" and s = "''{''" and j = ?j and e = ?e and st' = ?st'
       and readable = every_blob and b = text_file and key = "''file''" and ps = "[]"
       and v = ?v and data = ?data and storeName = "''thumbnails''" and x = "VObj [(''id'', VNum 1)]"
       and items = "[]" and db = ?db and d = "''windowImage''" and rest = "[]"
       and jsonString = "Malformed ''{''"
       and e' = "ErrorObj ''Invalid JSON string provided for restoration.''"
       and ?st1.0 = page_with_image_db]
  have 13: "backup_click every_blob page_with_attachment
     = (Pending, [''Saving backup disk...''], snd (backup every_blob DB_NAMES page_with_attachment))"
    by blast
  from m have m1: "is_file_data ?v" by simp
  from n have n1: "''thumbnails'' \<notin> set (objectStoreNames ?db)" by simp
  show ?thesis
    using a 1 2 3 4 v 5 x 6 f 7 u 8 m1 9 10 n1 11 12 q 13 by (intro conjI) assumption+
qed

subsection \<open>restore is not atomic\<close>

text \<open>
  Claim C5. \<open>restore\<close> is not atomic. There is a backup document and a store on which it
  rejects after a record has been written: the document names two items for the store
  \<open>images\<close>, the second of which has no \<open>id\<close>; the store is empty before, \<open>restore\<close>
  rejects, and the first item is in the store afterwards. Nothing is rolled back.
\<close>

theorem restore_not_atomic:
  "\<exists>e st'. restore half_backup page_with_image_db = (Rejected e, st') \<and>
     map_option records (get_store page_with_image_db ''windowImage'' ''images'') = Some [] \<and>
     map_option records (get_store st' ''windowImage'' ''images'')
       = Some [(KStr ''a'', VObj [(''id'', VStr ''a'')])]"
proof -
  have "map_option records (get_store page_with_image_db ''windowImage'' ''images'') = Some []"
    by code_simp
  moreover have "map_option records (get_store (snd (restore half_backup page_with_image_db))
      ''windowImage'' ''images'') = Some [(KStr ''a'', VObj [(''id'', VStr ''a'')])]"
    by code_simp
  ultimately show ?thesis using restore_half_backup
    by (intro exI conjI) simp_all
qed

subsection \<open>Which databases a widget touches\<close>

lemma page_with_image_records:
  "map_option records (get_store page_with_image ''windowImage'' ''images'')
     = Some [(KStr ''current-image'', imageObject png_file (readAsDataURL png_file) 1700000000000)]"
  by code_simp

text \<open>
  Claim C6, as stated, fails: the record that \<open>DroppableImageTarget\<close> wrote is replaced by
  \<open>restore\<close>, given a document that names the database \<open>windowImage\<close>.
\<close>

theorem restore_overwrites_image_counterexample:
  "map_option records (get_store page_with_image ''windowImage'' ''images'')
     = Some [(KStr ''current-image'', imageObject png_file (readAsDataURL png_file) 1700000000000)] \<and>
   map_option records (get_store (snd (restore other_backup page_with_image)) ''windowImage'' ''images'')
     = Some [(KStr ''current-image'', VObj [(''id'', VStr ''current-image''), (''data'', VStr ''other'')])]"
proof
  show "map_option records (get_store page_with_image ''windowImage'' ''images'')
     = Some [(KStr ''current-image'', imageObject png_file (readAsDataURL png_file) 1700000000000)]"
    by (rule page_with_image_records)
  show "map_option records (get_store (snd (restore other_backup page_with_image)) ''windowImage'' ''images'')
     = Some [(KStr ''current-image'', VObj [(''id'', VStr ''current-image''), (''data'', VStr ''other'')])]"
    by code_simp
qed

text \<open>
  Claim C6, amended. The widgets keep to their own databases, except that the backup and
  restore helper works on the databases of the others. \<open>storeImage\<close> changes no database
  but \<open>windowImage\<close>. \<open>backup\<close> leaves every database that exists as it is. \<open>restore\<close>
  changes no database that its document does not name, and nothing at all when its input is
  not JSON; so the image that \<open>DroppableImageTarget\<close> stored is modified by \<open>restore\<close> only
  when the document names \<open>windowImage\<close>.
\<close>

theorem widgets_databases:
  "(d \<noteq> ''windowImage'' \<longrightarrow>
      map_of (idb (snd (snd (storeImage file now w st)))) d = map_of (idb st) d) \<and>
   (map_of (idb st) d = Some db \<longrightarrow>
      map_of (idb (snd (backup readable names st))) d = Some db) \<and>
   (JSON_parse txt = Some pd \<and> d \<notin> set (for_in_keys pd) \<longrightarrow>
      map_of (idb (snd (restore txt st))) d = map_of (idb st) d) \<and>
   (JSON_parse txt = None \<longrightarrow> snd (restore txt st) = st)"
proof (intro conjI impI)
  assume "d \<noteq> ''windowImage''"
  then show "map_of (idb (snd (snd (storeImage file now w st)))) d = map_of (idb st) d"
    by (rule storeImage_other)
next
  assume "map_of (idb st) d = Some db"
  then show "map_of (idb (snd (backup readable names st))) d = Some db"
    unfolding backup_def by (rule backup_dbs_keeps)
next
  assume "JSON_parse txt = Some pd \<and> d \<notin> set (for_in_keys pd)"
  then show "map_of (idb (snd (restore txt st))) d = map_of (idb st) d"
    by (simp add: restore_def restore_dbs_other)
next
  assume "JSON_parse txt = None"
  then show "snd (restore txt st) = st" by (simp add: restore_def)
qed

theorem widgets_databases_witness:
  "''kalvNotesDB'' \<noteq> ''windowImage'' \<and>
   map_of (idb page_with_image) ''windowImage''
     = Some \<lparr>db_version = 1, objectStores = [(''images'', image_store_empty\<lparr>records :=
         [(KStr ''current-image'', imageObject png_file (readAsDataURL png_file) 1700000000000)]\<rparr>)]\<rparr> \<and>
   map_of (idb (snd (backup every_blob DB_NAMES page_with_image))) ''windowImage''
     = map_of (idb page_with_image) ''windowImage'' \<and>
   JSON_parse (Document (JObj [(''kalvNotesDB'', JObj [])])) = Some (VObj [(''kalvNotesDB'', VObj [])]) \<and>
   ''windowImage'' \<notin> set (for_in_keys (VObj [(''kalvNotesDB'', VObj [])])) \<and>
   map_of (idb (snd (restore (Document (JObj [(''kalvNotesDB'', JObj [])])) page_with_image))) ''windowImage''
     = map_of (idb page_with_image) ''windowImage'' \<and>
   JSON_parse (Malformed ''{'') = None \<and>
   snd (restore (Malformed ''{'') page_with_image) = page_with_image \<and>
   map_of (idb (snd (snd (storeImage png_file 1700000000000 widget_ready page_with_image_db)))) ''kalvNotesDB''
     = map_of (idb page_with_image_db) ''kalvNotesDB''"
proof -
  let ?db = "\<lparr>db_version = 1, objectStores = [(''images'', image_store_empty\<lparr>records :=
         [(KStr ''current-image'', imageObject png_file (readAsDataURL png_file) 1700000000000)]\<rparr>)]\<rparr>"
  let ?pd = "VObj [(''kalvNotesDB'', VObj [])]"
  let ?txt = "Document (JObj [(''kalvNotesDB'', JObj [])])"
  have a: "''kalvNotesDB'' \<noteq> ''windowImage''" by simp
  have b: "map_of (idb page_with_image) ''windowImage'' = Some ?db" by code_simp
  have c: "JSON_parse ?txt = Some ?pd \<and> ''windowImage'' \<notin> set (for_in_keys ?pd)"
    by (simp add: set_property_names)
  have n: "JSON_parse (Malformed ''{'') = None" by simp
  from widgets_databases [of "''windowImage''" png_file 1700000000000 widget_ready
      page_with_image ?db every_blob DB_NAMES ?txt ?pd] b c
  have 1: "map_of (idb (snd (backup every_blob DB_NAMES page_with_image))) ''windowImage'' = Some ?db"
    and 2: "map_of (idb (snd (restore ?txt page_with_image))) ''windowImage''
            = map_of (idb page_with_image) ''windowImage''"
    by blast+
  from widgets_databases [of "''kalvNotesDB''" png_file 1700000000000 widget_ready
      page_with_image_db _ _ _ "Malformed ''{''"] a
  have 3: "map_of (idb (snd (snd (storeImage png_file 1700000000000 widget_ready page_with_image_db)))) ''kalvNotesDB''
     = map_of (idb page_with_image_db) ''kalvNotesDB''" by blast
  from widgets_databases [of _ _ _ _ page_with_image _ _ _ "Malformed ''{''"] n
  have 4: "snd (restore (Malformed ''{'') page_with_image) = page_with_image" by blast
  from a b c n 1 2 3 4 show ?thesis by simp
qed

subsection \<open>Blobs as base64\<close>

lemma backup_fields_map:
  "fst (backup_fields readable ps)
     = map (\<lambda>p. (fst p, case snd p of
                           VBlob b \<Rightarrow> if readable b then file_data b else VNull
                         | v \<Rightarrow> v)) ps"
  by (induction ps) (auto split: prod.splits jsval.splits)

lemma backup_fields_awaited:
  "fst (snd (backup_fields readable ps)) \<longleftrightarrow> (\<exists>p \<in> set ps. is_blob (snd p))"
  by (induction ps) (auto split: prod.splits jsval.splits)

lemma backup_fields_log:
  "snd (snd (backup_fields readable ps))
     = map (\<lambda>p. (Err, ''Error converting file to base64 for key '' @ quoted (fst p) @ '':''))
         (filter (\<lambda>p. case snd p of VBlob b \<Rightarrow> \<not> readable b | _ \<Rightarrow> False) ps)"
  by (induction ps) (auto split: prod.splits jsval.splits)

lemma restore_value_value: "fst (restore_value key v st) = restored_value v"
  by (simp add: restore_value_def restored_value_def is_file_data_def base64ToBlob_def
           split: option.splits)

lemma restore_fields_value:
  "fst (restore_fields ps st) = map (\<lambda>p. (fst p, restored_value (snd p))) ps"
proof (induction ps arbitrary: st)
  case Nil
  show ?case by simp
next
  case (Cons p ps)
  obtain v st1 where v: "restore_value (fst p) (snd p) st = (v, st1)"
    by (cases "restore_value (fst p) (snd p) st")
  obtain ps' st2 where r: "restore_fields ps st1 = (ps', st2)"
    by (cases "restore_fields ps st1")
  have "v = restored_value (snd p)"
    using restore_value_value [of "fst p" "snd p" st] by (simp add: v)
  moreover have "ps' = map (\<lambda>p. (fst p, restored_value (snd p))) ps"
    using Cons.IH [of st1] by (simp add: r)
  ultimately show ?case by (simp add: v r)
qed

lemma restore_item_value: "fst (restore_item item st) = restored_item item"
proof (cases item)
  case (VObj ps)
  obtain ps' st1 where r: "restore_fields ps st = (ps', st1)" by (cases "restore_fields ps st")
  have "ps' = map (\<lambda>p. (fst p, restored_value (snd p))) ps"
    using restore_fields_value [of ps st] by (simp add: r)
  then show ?thesis by (simp add: VObj r)
next
  case (VArr xs)
  let ?ps = "zip (indices (length xs)) xs"
  obtain ps' st1 where r: "restore_fields ?ps st = (ps', st1)" by (cases "restore_fields ?ps st")
  have ps': "ps' = map (\<lambda>p. (fst p, restored_value (snd p))) ?ps"
    using restore_fields_value [of ?ps st] by (simp add: r)
  have "map snd ps' = map restored_value xs"
    unfolding ps' by (rule nth_equalityI) (simp_all add: indices_def)
  then show ?thesis by (simp add: VArr r)
qed simp_all

lemma comma_table: "list_all (\<lambda>n. b64_char n \<noteq> CHR '','') [0..<64]"
  by code_simp

lemma comma_not_in_base64: "CHR '','' \<notin> set (base64 bs)"
proof -
  have c: "n < 64 \<Longrightarrow> CHR '','' \<noteq> b64_char n" for n
  proof -
    assume "n < 64"
    then have "n \<in> set [0..<64]" by simp
    with comma_table have "b64_char n \<noteq> CHR '',''" unfolding list_all_iff by blast
    then show ?thesis by simp
  qed
  show ?thesis
  proof (induction bs rule: base64.induct)
    case 1
    show ?case by simp
  next
    case (2 a)
    have "unat a < 256" by (rule unat_byte_lt)
    then have "unat a div 4 < 64" "unat a mod 4 * 16 < 64" by simp_all
    then show ?case by (simp add: c)
  next
    case (3 a b)
    have "unat a < 256" "unat b < 256" by (rule unat_byte_lt)+
    then have "unat a div 4 < 64" "unat a mod 4 * 16 + unat b div 16 < 64" "unat b mod 16 * 4 < 64"
      by simp_all
    then show ?case by (simp add: c)
  next
    case (4 a b c' rest)
    have "unat a < 256" "unat b < 256" "unat c' < 256" by (rule unat_byte_lt)+
    then have "unat a div 4 < 64" "unat a mod 4 * 16 + unat b div 16 < 64"
      "unat b mod 16 * 4 + unat c' div 64 < 64" "unat c' mod 64 < 64"
      by simp_all
    then show ?case using 4 by (simp add: c)
  qed
qed

lemma base64ToBlob_try_data_url:
  assumes "CHR '','' \<notin> set pre"
  shows "base64ToBlob_try (VStr (pre @ CHR '','' # base64 bytes)) t
         = Some \<lparr>blob_bytes = bytes, blob_type = blob_type_of t, blob_name = None\<rparr>"
proof -
  have "split_on CHR '','' (pre @ CHR '','' # base64 bytes) = [pre, base64 bytes]"
    using assms comma_not_in_base64 by (rule split_on_one_comma)
  then show ?thesis
    by (simp add: base64ToBlob_try_def nth_opt_def atob_base64)
qed

lemma restored_data_url:
  assumes "is_file_data v" and "get_prop v ''data'' = VStr (pre @ '','' @ base64 bytes)"
    and "CHR '','' \<notin> set pre"
  shows "restored_value v
         = VBlob \<lparr>blob_bytes = bytes, blob_type = blob_type_of (get_prop v ''type''), blob_name = None\<rparr>"
  using assms by (simp add: restored_value_def base64ToBlob_try_data_url)

lemma is_file_data_file_data: "is_file_data (file_data b)"
  by (simp add: is_file_data_def file_data_def)

lemma restored_file_data:
  assumes "CHR '','' \<notin> set (blob_type b)" and "blob_type_of (VStr (blob_type b)) = blob_type b"
  shows "restored_value (file_data b) = VBlob (b\<lparr>blob_name := None\<rparr>)"
proof -
  let ?mime = "if blob_type b = [] then ''application/octet-stream'' else blob_type b"
  let ?pre = "''data:'' @ ?mime @ '';base64''"
  have pre: "CHR '','' \<notin> set ?pre" using assms(1) by simp
  have data: "get_prop (file_data b) ''data'' = VStr (?pre @ '','' @ base64 (blob_bytes b))"
    by (simp add: file_data_def readAsDataURL_def)
  have type: "get_prop (file_data b) ''type'' = VStr (blob_type b)"
    by (simp add: file_data_def)
  have "restored_value (file_data b)
        = VBlob \<lparr>blob_bytes = blob_bytes b, blob_type = blob_type_of (get_prop (file_data b) ''type''),
                 blob_name = None\<rparr>"
    using is_file_data_file_data data pre by (rule restored_data_url)
  then show ?thesis by (simp add: type assms(2))
qed

lemma json_file_data: "to_json (file_data b) = Some j \<Longrightarrow> json_value j = file_data b"
  by (auto simp: file_data_def set_property_names)

lemma split_on_no_comma: "c \<notin> set s \<Longrightarrow> split_on c s = [s]"
  by (induction s) auto

lemma atob_undefined: "atob ''undefined'' = None"
  by code_simp

lemma restored_no_comma:
  assumes "is_file_data v" and "get_prop v ''data'' = VStr s" and "CHR '','' \<notin> set s"
  shows "restored_value v = VNull"
  using assms
  by (simp add: restored_value_def base64ToBlob_try_def split_on_no_comma nth_opt_def
        atob_undefined)

lemma restored_second_piece:
  assumes "is_file_data v" and "get_prop v ''data'' = VStr s"
    and "split_on CHR '','' s = p0 # p1 # rest"
  shows "restored_value v =
     (case atob p1 of
        None \<Rightarrow> VNull
      | Some bytes \<Rightarrow> VBlob \<lparr>blob_bytes = bytes, blob_type = blob_type_of (get_prop v ''type''),
                             blob_name = None\<rparr>)"
  using assms
  by (simp add: restored_value_def base64ToBlob_try_def nth_opt_def split: option.splits)

lemma restored_not_string:
  assumes "is_file_data v" and "\<forall>s. get_prop v ''data'' \<noteq> VStr s"
  shows "restored_value v = VNull"
  using assms
  by (cases "get_prop v ''data''") (simp_all add: restored_value_def base64ToBlob_try_def)

text \<open>
  Claim C2, as stated, fails for \<open>restore\<close>: a property that carries the marker is not
  always converted into a Blob. When \<open>atob\<close> rejects what \<open>data.split(',')[1]\<close> gives, the
  property becomes \<open>null\<close>.
\<close>

theorem marker_to_null_counterexample:
  "fst (restore_value ''file''
         (VObj [(''_indexedDB_file_data'', VBool True), (''data'', VStr ''not base64''),
                (''type'', VStr ''text/plain'')]) page_with_image_db) = VNull"
  by code_simp

text \<open>
  Claim C2, amended. The only framing of binary data is base64. In the cursor handler of
  \<open>backup\<close>, every property of an item that holds a Blob or File is replaced: by the object
  \<open>{_indexedDB_file_data: true, data, type, name}\<close>, where \<open>data\<close> is the base64 data URL
  of the bytes, when the \<open>FileReader\<close> reads the Blob; by \<open>null\<close>, with an error logged that
  names the property, when the reader fails. The other properties are left as they are. In
  \<open>restore\<close>, every property that holds an object with a truthy \<open>_indexedDB_file_data\<close> is
  replaced, and the other properties are left as they are. With \<open>data\<close> a string that has a
  comma, the piece between its first comma and the next (or the end) is handed to \<open>atob\<close>:
  the property becomes a Blob of the decoded bytes, whose type is what the \<open>Blob\<close>
  constructor makes of the recorded \<open>type\<close>, or \<open>null\<close> when \<open>atob\<close> rejects the piece. It
  becomes \<open>null\<close> as well when \<open>data\<close> is a string without a comma or is not a string.
  \<open>atob\<close> decodes the base64 text of a byte sequence to that sequence; so, applied to the
  object that \<open>backup\<close> makes of a Blob (through JSON), \<open>restore\<close> gives a Blob with the same
  bytes and the same type, when the type has no comma and is in lower case.
\<close>

theorem blob_framing:
  "fst (backup_fields readable ps)
     = map (\<lambda>p. (fst p, case snd p of
                           VBlob b \<Rightarrow> if readable b then file_data b else VNull
                         | v \<Rightarrow> v)) ps \<and>
   snd (snd (backup_fields readable ps))
     = map (\<lambda>p. (Err, ''Error converting file to base64 for key '' @ quoted (fst p) @ '':''))
         (filter (\<lambda>p. case snd p of VBlob b \<Rightarrow> \<not> readable b | _ \<Rightarrow> False) ps) \<and>
   file_data b =
     VObj [(''_indexedDB_file_data'', VBool True),
           (''data'', VStr (''data:''
              @ (if blob_type b = [] then ''application/octet-stream'' else blob_type b)
              @ '';base64,'' @ base64 (blob_bytes b))),
           (''type'', VStr (blob_type b)),
           (''name'', VStr (case blob_name b of
                              None \<Rightarrow> ''unnamed_file''
                            | Some n \<Rightarrow> if n = [] then ''unnamed_file'' else n))] \<and>
   fst (restore_fields ps st) = map (\<lambda>p. (fst p, restored_value (snd p))) ps \<and>
   (\<not> is_file_data v \<longrightarrow> restored_value v = v) \<and>
   (is_file_data v \<and> get_prop v ''data'' = VStr s \<and> split_on CHR '','' s = p0 # p1 # rest
      \<and> atob p1 = Some bytes \<longrightarrow>
      restored_value v
        = VBlob \<lparr>blob_bytes = bytes, blob_type = blob_type_of (get_prop v ''type''),
                 blob_name = None\<rparr>) \<and>
   (is_file_data v \<and> get_prop v ''data'' = VStr s \<and> split_on CHR '','' s = p0 # p1 # rest
      \<and> atob p1 = None \<longrightarrow> restored_value v = VNull) \<and>
   (is_file_data v \<and> get_prop v ''data'' = VStr s \<and> CHR '','' \<notin> set s \<longrightarrow>
      restored_value v = VNull) \<and>
   (is_file_data v \<and> (\<forall>s. get_prop v ''data'' \<noteq> VStr s) \<longrightarrow> restored_value v = VNull) \<and>
   atob (base64 bytes') = Some bytes' \<and>
   (CHR '','' \<notin> set (blob_type b) \<and> blob_type_of (VStr (blob_type b)) = blob_type b
      \<and> to_json (file_data b) = Some j \<longrightarrow>
      restored_value (json_value j) = VBlob (b\<lparr>blob_name := None\<rparr>))"
proof (intro conjI impI)
  show "fst (backup_fields readable ps)
     = map (\<lambda>p. (fst p, case snd p of
                           VBlob b \<Rightarrow> if readable b then file_data b else VNull
                         | v \<Rightarrow> v)) ps"
    by (rule backup_fields_map)
  show "snd (snd (backup_fields readable ps))
     = map (\<lambda>p. (Err, ''Error converting file to base64 for key '' @ quoted (fst p) @ '':''))
         (filter (\<lambda>p. case snd p of VBlob b \<Rightarrow> \<not> readable b | _ \<Rightarrow> False) ps)"
    by (rule backup_fields_log)
  show "file_data b =
     VObj [(''_indexedDB_file_data'', VBool True),
           (''data'', VStr (''data:''
              @ (if blob_type b = [] then ''application/octet-stream'' else blob_type b)
              @ '';base64,'' @ base64 (blob_bytes b))),
           (''type'', VStr (blob_type b)),
           (''name'', VStr (case blob_name b of
                              None \<Rightarrow> ''unnamed_file''
                            | Some n \<Rightarrow> if n = [] then ''unnamed_file'' else n))]"
    by (simp add: file_data_def readAsDataURL_def)
  show "fst (restore_fields ps st) = map (\<lambda>p. (fst p, restored_value (snd p))) ps"
    by (rule restore_fields_value)
  show "atob (base64 bytes') = Some bytes'" by (rule atob_base64)
next
  assume "\<not> is_file_data v"
  then show "restored_value v = v" by (simp add: restored_value_def)
next
  assume "is_file_data v \<and> get_prop v ''data'' = VStr s \<and> split_on CHR '','' s = p0 # p1 # rest
      \<and> atob p1 = Some bytes"
  then show "restored_value v
        = VBlob \<lparr>blob_bytes = bytes, blob_type = blob_type_of (get_prop v ''type''),
                 blob_name = None\<rparr>"
    using restored_second_piece [of v s p0 p1 rest] by simp
next
  assume "is_file_data v \<and> get_prop v ''data'' = VStr s \<and> split_on CHR '','' s = p0 # p1 # rest
      \<and> atob p1 = None"
  then show "restored_value v = VNull"
    using restored_second_piece [of v s p0 p1 rest] by simp
next
  assume "is_file_data v \<and> get_prop v ''data'' = VStr s \<and> CHR '','' \<notin> set s"
  then show "restored_value v = VNull" using restored_no_comma by blast
next
  assume "is_file_data v \<and> (\<forall>s. get_prop v ''data'' \<noteq> VStr s)"
  then show "restored_value v = VNull" using restored_not_string by blast
next
  assume a: "CHR '','' \<notin> set (blob_type b) \<and> blob_type_of (VStr (blob_type b)) = blob_type b
      \<and> to_json (file_data b) = Some j"
  then have "json_value j = file_data b" using json_file_data by blast
  then show "restored_value (json_value j) = VBlob (b\<lparr>blob_name := None\<rparr>)"
    using a restored_file_data by simp
qed

theorem blob_framing_witness:
  "\<not> is_file_data (VStr ''abc'') \<and> restored_value (VStr ''abc'') = VStr ''abc'' \<and>
   is_file_data (file_data text_file) \<and>
   get_prop (file_data text_file) ''data'' = VStr ''data:text/plain;base64,TWFu'' \<and>
   split_on CHR '','' ''data:text/plain;base64,TWFu'' = [''data:text/plain;base64'', ''TWFu''] \<and>
   atob ''TWFu'' = Some [77, 97, 110] \<and>
   restored_value (file_data text_file)
     = VBlob \<lparr>blob_bytes = [77, 97, 110], blob_type = ''text/plain'', blob_name = None\<rparr> \<and>
   is_file_data (VObj [(''_indexedDB_file_data'', VBool True), (''data'', VStr ''data:a,b;base64,TWFu'')]) \<and>
   split_on CHR '','' ''data:a,b;base64,TWFu'' = [''data:a'', ''b;base64'', ''TWFu''] \<and>
   atob ''b;base64'' = None \<and>
   restored_value (VObj [(''_indexedDB_file_data'', VBool True), (''data'', VStr ''data:a,b;base64,TWFu'')])
     = VNull \<and>
   is_file_data (VObj [(''_indexedDB_file_data'', VBool True), (''data'', VStr ''not base64'')]) \<and>
   CHR '','' \<notin> set ''not base64'' \<and>
   restored_value (VObj [(''_indexedDB_file_data'', VBool True), (''data'', VStr ''not base64'')]) = VNull \<and>
   is_file_data (VObj [(''_indexedDB_file_data'', VBool True), (''data'', VNum 5)]) \<and>
   restored_value (VObj [(''_indexedDB_file_data'', VBool True), (''data'', VNum 5)]) = VNull \<and>
   CHR '','' \<notin> set (blob_type text_file) \<and>
   blob_type_of (VStr (blob_type text_file)) = blob_type text_file \<and>
   (\<exists>j. to_json (file_data text_file) = Some j \<and>
      restored_value (json_value j) = VBlob (text_file\<lparr>blob_name := None\<rparr>))"
proof -
  let ?two = "VObj [(''_indexedDB_file_data'', VBool True), (''data'', VStr ''data:a,b;base64,TWFu'')]"
  let ?bad = "VObj [(''_indexedDB_file_data'', VBool True), (''data'', VStr ''not base64'')]"
  let ?num = "VObj [(''_indexedDB_file_data'', VBool True), (''data'', VNum 5)]"
  let ?j = "JObj [(''_indexedDB_file_data'', JBool True),
                  (''data'', JStr (readAsDataURL text_file)),
                  (''type'', JStr ''text/plain''), (''name'', JStr ''a.txt'')]"
  have a: "\<not> is_file_data (VStr ''abc'')" by (simp add: is_file_data_def)
  have b1: "is_file_data (file_data text_file)" by (rule is_file_data_file_data)
  have b2: "get_prop (file_data text_file) ''data'' = VStr ''data:text/plain;base64,TWFu''"
    by code_simp
  have b3: "split_on CHR '','' ''data:text/plain;base64,TWFu'' = [''data:text/plain;base64'', ''TWFu'']"
    by code_simp
  have b4: "atob ''TWFu'' = Some [77, 97, 110]" by code_simp
  have t: "get_prop (file_data text_file) ''type'' = VStr ''text/plain''"
    by (simp add: file_data_def text_file_def)
  have bt: "blob_type_of (VStr ''text/plain'') = ''text/plain''" by code_simp
  have c1: "is_file_data ?two" by (simp add: is_file_data_def)
  have c2: "get_prop ?two ''data'' = VStr ''data:a,b;base64,TWFu''" by simp
  have c3: "split_on CHR '','' ''data:a,b;base64,TWFu'' = [''data:a'', ''b;base64'', ''TWFu'']"
    by code_simp
  have c4: "atob ''b;base64'' = None" by code_simp
  have d1: "is_file_data ?bad" by (simp add: is_file_data_def)
  have d2: "get_prop ?bad ''data'' = VStr ''not base64''" by simp
  have d3: "CHR '','' \<notin> set ''not base64''" by simp
  have e1: "is_file_data ?num" by (simp add: is_file_data_def)
  have e2: "\<forall>s. get_prop ?num ''data'' \<noteq> VStr s" by simp
  have f: "CHR '','' \<notin> set (blob_type text_file) \<and>
     blob_type_of (VStr (blob_type text_file)) = blob_type text_file"
    using bt by (simp add: text_file_def)
  have j: "to_json (file_data text_file) = Some ?j"
    by (simp add: file_data_def text_file_def)
  from blob_framing [where v = "VStr ''abc''"] a
  have 1: "restored_value (VStr ''abc'') = VStr ''abc''" by blast
  from blob_framing [where v = "file_data text_file" and s = "''data:text/plain;base64,TWFu''"
      and ?p0.0 = "''data:text/plain;base64''" and ?p1.0 = "''TWFu''" and rest = "[]"
      and bytes = "[77, 97, 110]"] b1 b2 b3 b4
  have 2: "restored_value (file_data text_file)
     = VBlob \<lparr>blob_bytes = [77, 97, 110], blob_type = ''text/plain'', blob_name = None\<rparr>"
    unfolding t bt by blast
  from blob_framing [where v = ?two and s = "''data:a,b;base64,TWFu''"
      and ?p0.0 = "''data:a''" and ?p1.0 = "''b;base64''" and rest = "[''TWFu'']"] c1 c2 c3 c4
  have 3: "restored_value ?two = VNull" by blast
  from blob_framing [where v = ?bad and s = "''not base64''"] d1 d2 d3
  have 4: "restored_value ?bad = VNull" by blast
  from blob_framing [where v = ?num] e1 e2
  have 5: "restored_value ?num = VNull" by blast
  from blob_framing [where b = text_file and j = ?j] f j
  have 6: "restored_value (json_value ?j) = VBlob (text_file\<lparr>blob_name := None\<rparr>)" by blast
  from a 1 b1 b2 b3 b4 2 c1 c3 c4 3 d1 d3 4 e1 5 f j 6 show ?thesis by blast
qed

subsection \<open>backup and records that hold a Blob\<close>

lemma backup_page_with_file: "fst (backup readable [''files''] page_with_file) = Pending"
  by (cases "readable text_file")
     (simp_all add: backup_def openDB_def indexedDB_open_def page_with_file_def connect_def
        objectStoreNames_def cursor_records_def Let_def)

text \<open>
  Claim C3 asks that \<open>backup\<close> resolve to the JSON text of all records. On a store with a
  record that holds a File, it does not resolve, whether the \<open>FileReader\<close> can read the
  file or not: the item is converted and pushed, and the promise that \<open>backup\<close> awaits for
  the store is never settled.
\<close>

theorem backup_stalls_on_file:
  "fst (backup readable [''files''] page_with_file) = Pending \<and>
   backup_fields every_blob (spread (VObj [(''id'', VNum 1), (''file'', VBlob text_file)]))
     = ([(''id'', VNum 1), (''file'', file_data text_file)], True, [])"
proof
  show "fst (backup readable [''files''] page_with_file) = Pending"
    by (rule backup_page_with_file)
  show "backup_fields every_blob (spread (VObj [(''id'', VNum 1), (''file'', VBlob text_file)]))
     = ([(''id'', VNum 1), (''file'', file_data text_file)], True, [])"
    by (simp add: every_blob_def)
qed

subsection \<open>restore, store by store\<close>

lemma alist_set_twice: "alist_set k v2 (alist_set k v1 ps) = alist_set k v2 ps"
  by (induction ps) auto

lemma idb_set_store:
  "idb (set_store d s os st) =
     (case map_of (idb st) d of
        None \<Rightarrow> idb st
      | Some db \<Rightarrow> alist_set d (db\<lparr>objectStores := alist_set s os (objectStores db)\<rparr>) (idb st))"
  by (simp add: set_store_def set_database_def split: option.splits)

lemma idb_set_store_cong:
  assumes "idb st1 = idb st"
  shows "idb (set_store d s os st1) = idb (set_store d s os st)"
  unfolding idb_set_store assms ..

lemma get_store_cong: "idb st1 = idb st \<Longrightarrow> get_store st1 d s = get_store st d s"
  by (simp add: get_store_def)

lemma set_store_twice:
  "idb (set_store d s os2 (set_store d s os1 st)) = idb (set_store d s os2 st)"
  by (simp add: idb_set_store map_of_alist_set alist_set_twice split: option.splits)

lemma set_store_same:
  "get_store st d s = Some os \<Longrightarrow> idb (set_store d s os st) = idb st"
  by (auto simp: idb_set_store get_store_def alist_set_same split: option.splits)

lemma restore_item_pair:
  "\<exists>st1. restore_item item st = (restored_item item, st1) \<and> idb st1 = idb st"
proof -
  obtain x st1 where r: "restore_item item st = (x, st1)" by (cases "restore_item item st")
  have "x = restored_item item" using restore_item_value [of item st] by (simp add: r)
  moreover have "idb st1 = idb st" using restore_item_idb [of item st] by (simp add: r)
  ultimately show ?thesis using r by simp
qed

lemma restore_items_ok:
  assumes "get_store st d s = Some os" and "put_every_item os (map restored_item items) = Inr os'"
  shows "\<exists>st'. restore_items d s items st = (Inr (), st') \<and> idb st' = idb (set_store d s os' st)"
  using assms
proof (induction items arbitrary: st os)
  case Nil
  from Nil(2) have "os' = os" by simp
  with Nil(1) have "get_store st d s = Some os'" by simp
  then have "idb (set_store d s os' st) = idb st" by (rule set_store_same)
  then show ?case by simp
next
  case (Cons item items)
  obtain st1 where i: "restore_item item st = (restored_item item, st1)" and st1: "idb st1 = idb st"
    using restore_item_pair by blast
  have g: "get_store st1 d s = Some os" using Cons.prems(1) by (simp add: get_store_cong [OF st1])
  from Cons.prems(2) obtain os1 where p: "store_put os (restored_item item) = Inr os1"
    and rest: "put_every_item os1 (map restored_item items) = Inr os'"
    by (cases "store_put os (restored_item item)") simp_all
  let ?st2 = "set_store d s os1 st1"
  have g2: "get_store ?st2 d s = Some os1" using g by (rule get_store_set_store_same)
  from Cons.IH [OF g2 rest] obtain st' where r: "restore_items d s items ?st2 = (Inr (), st')"
    and e: "idb st' = idb (set_store d s os' ?st2)" by blast
  have "idb (set_store d s os' ?st2) = idb (set_store d s os' st1)" by (rule set_store_twice)
  also have "\<dots> = idb (set_store d s os' st)" using st1 by (rule idb_set_store_cong)
  finally have "idb (set_store d s os' ?st2) = idb (set_store d s os' st)" .
  with e have e': "idb st' = idb (set_store d s os' st)" by (rule trans)
  have "restore_items d s (item # items) st = restore_items d s items ?st2"
    by (simp only: restore_items.simps i prod.case g option.case p sum.case)
  with r have "restore_items d s (item # items) st = (Inr (), st')" by simp
  with e' show ?case by blast
qed

lemma restore_items_fail:
  assumes "get_store st d s = Some os" and "put_every_item os (map restored_item items) = Inl e"
  shows "\<exists>e'. fst (restore_items d s items st) = Inl e'"
  using assms
proof (induction items arbitrary: st os)
  case Nil
  then show ?case by simp
next
  case (Cons item items)
  obtain st1 where i: "restore_item item st = (restored_item item, st1)" and st1: "idb st1 = idb st"
    using restore_item_pair by blast
  have g: "get_store st1 d s = Some os" using Cons.prems(1) by (simp add: get_store_cong [OF st1])
  show ?case
  proof (cases "store_put os (restored_item item)")
    case (Inl e0)
    have "fst (restore_items d s (item # items) st)
          = Inl (ErrorObj (''Restoration failed for an item in '' @ d @ ''.'' @ s @ ''.''))"
      by (simp only: restore_items.simps i prod.case g option.case Inl sum.case fst_conv)
    then show ?thesis by blast
  next
    case (Inr os1)
    let ?st2 = "set_store d s os1 st1"
    have g2: "get_store ?st2 d s = Some os1" using g by (rule get_store_set_store_same)
    have rest: "put_every_item os1 (map restored_item items) = Inl e"
      using Cons.prems(2) Inr by simp
    have "restore_items d s (item # items) st = restore_items d s items ?st2"
      by (simp only: restore_items.simps i prod.case g option.case Inr sum.case)
    with Cons.IH [OF g2 rest] show ?thesis by (simp only:)
  qed
qed

lemma restore_items_other_store:
  assumes "(d', s') \<noteq> (d, s)"
  shows "get_store (snd (restore_items d s items st)) d' s' = get_store st d' s'"
proof (induction items arbitrary: st)
  case Nil
  show ?case by simp
next
  case (Cons item items)
  obtain st1 where i: "restore_item item st = (restored_item item, st1)" and st1: "idb st1 = idb st"
    using restore_item_pair by blast
  have g: "get_store st1 d' s' = get_store st d' s'" using st1 by (rule get_store_cong)
  show ?case
  proof (cases "get_store st1 d s")
    case None
    then show ?thesis by (simp add: i g)
  next
    case (Some store)
    show ?thesis
    proof (cases "store_put store (restored_item item)")
      case (Inl e)
      then show ?thesis by (simp add: i Some g)
    next
      case (Inr store')
      have "get_store (snd (restore_items d s items (set_store d s store' st1))) d' s'
            = get_store (set_store d s store' st1) d' s'" by (rule Cons.IH)
      also have "\<dots> = get_store st d' s'"
        using assms g by (simp add: get_store_set_store_other)
      finally show ?thesis by (simp add: i Some Inr)
    qed
  qed
qed

lemma restore_stores_other_store:
  assumes "s \<notin> set ss \<or> d' \<noteq> d"
  shows "get_store (snd (restore_stores d data db ss st)) d' s = get_store st d' s"
  using assms
proof (induction ss arbitrary: st)
  case Nil
  show ?case by simp
next
  case (Cons s1 ss)
  then have ne: "(d', s) \<noteq> (d, s1)" and rest: "s \<notin> set ss \<or> d' \<noteq> d" by auto
  let ?items = "get_prop data s1"
  show ?case
  proof (cases "\<not> truthy ?items \<or> get_prop ?items ''length'' = VNum 0")
    case True
    then show ?thesis using Cons.IH [OF rest, of st] by (simp add: Let_def)
  next
    case skip: False
    show ?thesis
    proof (cases "s1 \<notin> set (objectStoreNames db)")
      case True
      then show ?thesis using skip Cons.IH [OF rest] by (simp add: Let_def)
    next
      case found: False
      show ?thesis
      proof (cases "for_of_items ?items")
        case (Inl e)
        then show ?thesis using skip found by (simp add: Let_def)
      next
        case (Inr items)
        obtain r st1 where r: "restore_items d s1 items st = (r, st1)"
          by (cases "restore_items d s1 items st")
        have st1: "get_store st1 d' s = get_store st d' s"
          using restore_items_other_store [OF ne, of items st] by (simp add: r)
        show ?thesis
        proof (cases r)
          case (Inl e)
          then show ?thesis using skip found Inr r st1 by (simp add: Let_def)
        next
          case (Inr u)
          then show ?thesis using skip found \<open>for_of_items ?items = Inr items\<close> r st1
              Cons.IH [OF rest, of st1] by (simp add: Let_def)
        qed
      qed
    qed
  qed
qed

lemma restore_stores_append:
  "restore_stores d data db (ss1 @ ss2) st =
     (case restore_stores d data db ss1 st of
        (Inl e, st1) \<Rightarrow> (Inl e, st1)
      | (Inr u, st1) \<Rightarrow> restore_stores d data db ss2 st1)"
proof (induction ss1 arbitrary: st)
  case Nil
  show ?case by simp
next
  case (Cons s1 ss1)
  let ?items = "get_prop data s1"
  show ?case
  proof (cases "\<not> truthy ?items \<or> get_prop ?items ''length'' = VNum 0")
    case True
    then show ?thesis using Cons.IH [of st] by (simp add: Let_def)
  next
    case skip: False
    show ?thesis
    proof (cases "s1 \<notin> set (objectStoreNames db)")
      case True
      then show ?thesis using skip Cons.IH by (simp add: Let_def)
    next
      case found: False
      show ?thesis
      proof (cases "for_of_items ?items")
        case (Inl e)
        then show ?thesis using skip found by (simp add: Let_def)
      next
        case (Inr items)
        obtain r st1 where r: "restore_items d s1 items st = (r, st1)"
          by (cases "restore_items d s1 items st")
        show ?thesis
        proof (cases r)
          case (Inl e)
          then show ?thesis using skip found Inr r by (simp add: Let_def)
        next
          case (Inr u)
          then show ?thesis using skip found \<open>for_of_items ?items = Inr items\<close> r
              Cons.IH [of st1] by (simp add: Let_def)
        qed
      qed
    qed
  qed
qed

lemma restore_stores_step:
  assumes "get_prop data s = VArr items" and "s \<in> set (objectStoreNames db)"
    and "get_store st d s = Some os"
  shows "(put_every_item os (map restored_item items) = Inr os' \<longrightarrow>
           (\<exists>st1. restore_stores d data db (s # ss) st = restore_stores d data db ss st1
              \<and> get_store st1 d s = Some os'
              \<and> (\<forall>d' s'. (d', s') \<noteq> (d, s) \<longrightarrow> get_store st1 d' s' = get_store st d' s'))) \<and>
         (put_every_item os (map restored_item items) = Inl e \<longrightarrow>
           (\<exists>e'. fst (restore_stores d data db (s # ss) st) = Inl e'))"
proof (cases "items = []")
  case True
  have "restore_stores d data db (s # ss) st = restore_stores d data db ss st"
    using assms(1) True by (simp add: Let_def)
  then show ?thesis using True assms(3) by auto
next
  case False
  then have len: "get_prop (VArr items) ''length'' \<noteq> VNum 0" by simp
  obtain r st1 where r: "restore_items d s items st = (r, st1)" by (cases "restore_items d s items st")
  have unfold: "restore_stores d data db (s # ss) st =
      (case r of Inl e \<Rightarrow> (Inl e, st1) | Inr u \<Rightarrow> restore_stores d data db ss st1)"
    using assms(1,2) len r by (simp add: Let_def split: sum.splits)
  have other: "\<forall>d' s'. (d', s') \<noteq> (d, s) \<longrightarrow> get_store st1 d' s' = get_store st d' s'"
    using restore_items_other_store [of _ _ d s items st] by (simp add: r)
  show ?thesis
  proof (intro conjI impI)
    assume "put_every_item os (map restored_item items) = Inl e"
    from restore_items_fail [OF assms(3) this] obtain e' where "r = Inl e'"
      by (auto simp: r)
    then show "\<exists>e'. fst (restore_stores d data db (s # ss) st) = Inl e'"
      using unfold by simp
  next
    assume "put_every_item os (map restored_item items) = Inr os'"
    from restore_items_ok [OF assms(3) this]
    have a: "r = Inr ()" and b: "idb st1 = idb (set_store d s os' st)" by (simp_all add: r)
    have "get_store st1 d s = get_store (set_store d s os' st) d s" using b by (rule get_store_cong)
    also have "\<dots> = Some os'" using assms(3) by (rule get_store_set_store_same)
    finally have g: "get_store st1 d s = Some os'" .
    have "restore_stores d data db (s # ss) st = restore_stores d data db ss st1"
      using unfold a by simp
    with g other show "\<exists>st1. restore_stores d data db (s # ss) st = restore_stores d data db ss st1
              \<and> get_store st1 d s = Some os'
              \<and> (\<forall>d' s'. (d', s') \<noteq> (d, s) \<longrightarrow> get_store st1 d' s' = get_store st d' s')"
      by blast
  qed
qed

subsection \<open>JSON: what parsing gives, and what survives the round trip\<close>

lemma plain_list_iff: "plain_list xs \<longleftrightarrow> (\<forall>x \<in> set xs. plain x)"
  by (induction xs) auto

lemma plain_props_iff: "plain_props ps \<longleftrightarrow> (\<forall>p \<in> set ps. plain (snd p))"
  by (induction ps) auto

lemma plain_props_set_property:
  assumes "plain v" and "plain_props ps"
  shows "plain_props (set_property k v ps)"
  unfolding plain_props_iff
proof
  fix p assume "p \<in> set (set_property k v ps)"
  with set_set_property_subset have "p = (k, v) \<or> p \<in> set ps" by fastforce
  then show "plain (snd p)" using assms by (auto simp: plain_props_iff)
qed

lemma plain_props_lookup: "plain_props ps \<Longrightarrow> map_of ps k = Some v \<Longrightarrow> plain v"
  by (metis map_of_SomeD plain_props_iff snd_conv)

lemma plain_json_value: "plain (json_value j)"
  and plain_json_props:
    "distinct (map fst acc) \<and> own_property_order (map fst acc) \<and> plain_props acc \<longrightarrow>
       distinct (map fst (json_props acc ps)) \<and> own_property_order (map fst (json_props acc ps))
       \<and> plain_props (json_props acc ps)"
proof (induction j and acc ps rule: json_value_json_props.induct)
  case (5 xs)
  then show ?case by (simp add: plain_list_iff)
next
  case (6 ps)
  then show ?case by (simp add: own_property_order_def)
next
  case (8 acc p ps)
  show ?case
  proof
    assume a: "distinct (map fst acc) \<and> own_property_order (map fst acc) \<and> plain_props acc"
    then have "distinct (map fst (set_property (fst p) (json_value (snd p)) acc))"
      by (simp add: distinct_set_property)
    moreover have "own_property_order (map fst (set_property (fst p) (json_value (snd p)) acc))"
      using a by (simp add: own_order_set_property)
    moreover have "plain_props (set_property (fst p) (json_value (snd p)) acc)"
      using 8(1) a by (simp add: plain_props_set_property)
    ultimately show "distinct (map fst (json_props acc (p # ps)))
        \<and> own_property_order (map fst (json_props acc (p # ps)))
        \<and> plain_props (json_props acc (p # ps))"
      using 8(2) by simp
  qed
qed simp_all

lemma plain_round_trip:
  "plain v \<longrightarrow> (\<exists>j. to_json v = Some j \<and> json_value j = v)"
  and plain_list_round_trip: "plain_list xs \<longrightarrow> map json_value (to_json_elems xs) = xs"
  and plain_props_round_trip:
    "plain_props ps \<longrightarrow>
       (\<forall>acc :: (string \<times> jsval) list.
          distinct (map fst (acc @ ps)) \<and> own_property_order (map fst (acc @ ps)) \<longrightarrow>
          json_props acc (to_json_props ps) = acc @ ps)"
proof (induction v and xs and ps rule: plain_plain_list_plain_props.induct)
  case (8 xs)
  then show ?case by simp
next
  case (9 ps)
  show ?case
  proof
    assume "plain (VObj ps)"
    then have "distinct (map fst ([] @ ps))" and "own_property_order (map fst ([] @ ps))"
      and "plain_props ps" by simp_all
    with 9 have "json_props [] (to_json_props ps) = [] @ ps" by blast
    then show "\<exists>j. to_json (VObj ps) = Some j \<and> json_value j = VObj ps" by simp
  qed
next
  case (11 x xs)
  show ?case
  proof
    assume "plain_list (x # xs)"
    then have x: "plain x" and xs: "plain_list xs" by simp_all
    from 11(1) x obtain j where "to_json x = Some j" and "json_value j = x" by blast
    moreover from 11(2) xs have "map json_value (to_json_elems xs) = xs" by blast
    ultimately show "map json_value (to_json_elems (x # xs)) = x # xs" by simp
  qed
next
  case (13 p ps)
  show ?case
  proof (intro impI allI)
    fix acc :: "(string \<times> jsval) list"
    assume pl: "plain_props (p # ps)"
      and d: "distinct (map fst (acc @ p # ps)) \<and> own_property_order (map fst (acc @ p # ps))"
    from pl have p: "plain (snd p)" and ps: "plain_props ps" by simp_all
    from 13(1) p obtain j where j: "to_json (snd p) = Some j" and jv: "json_value j = snd p"
      by blast
    from d have new: "fst p \<notin> fst ` set acc" by auto
    from d have "\<forall>q \<in> set acc. precedes (fst q) (fst p)"
      by (auto simp: own_property_order_def sorted_wrt_append)
    with new have sp: "set_property (fst p) (snd p) acc = acc @ [p]"
      by (simp add: set_property_append)
    from d have d': "distinct (map fst ((acc @ [p]) @ ps))
        \<and> own_property_order (map fst ((acc @ [p]) @ ps))"
      by simp
    have "json_props acc (to_json_props (p # ps))
          = json_props (set_property (fst p) (snd p) acc) (to_json_props ps)"
      by (simp add: j jv)
    also have "\<dots> = json_props (acc @ [p]) (to_json_props ps)" by (simp only: sp)
    also have "\<dots> = (acc @ [p]) @ ps"
      using 13(2) ps d' by blast
    finally show "json_props acc (to_json_props (p # ps)) = acc @ p # ps" by simp
  qed
qed simp_all

lemma JSON_round_trip:
  "plain v \<Longrightarrow> \<exists>txt. JSON_stringify v = Some txt \<and> JSON_parse txt = Some v"
  using plain_round_trip [of v] by (auto simp: JSON_stringify_def)

subsection \<open>Opening a database, and restore database by database\<close>

lemma map_of_append_new:
  "map_of (ps @ [(k, v)]) k' = (case map_of ps k' of Some x \<Rightarrow> Some x | None \<Rightarrow> if k' = k then Some v else None)"
  by (induction ps) auto

lemma upgrade_stores_lookup:
  "map_of (objectStores (fst (upgrade_stores d ss db c))) s =
     (case map_of (objectStores db) s of
        Some os \<Rightarrow> Some os
      | None \<Rightarrow> if s \<in> set ss then Some fresh_store else None)"
proof (induction ss arbitrary: db c)
  case Nil
  show ?case by (simp split: option.splits)
next
  case (Cons s1 ss)
  show ?case
  proof (cases "s1 \<in> set (map fst (objectStores db))")
    case True
    then have "map_of (objectStores db) s1 \<noteq> None"
      by (simp add: map_of_eq_None_iff)
    then show ?thesis using True Cons.IH [of db c]
      by (auto split: option.splits)
  next
    case False
    then have none: "map_of (objectStores db) s1 = None"
      by (simp add: map_of_eq_None_iff)
    let ?db1 = "createObjectStore s1 (Some ''id'') True db"
    have l: "map_of (objectStores ?db1) s =
        (case map_of (objectStores db) s of Some x \<Rightarrow> Some x
         | None \<Rightarrow> if s = s1 then Some fresh_store else None)"
      by (simp add: createObjectStore_def map_add_def fresh_store_def split: option.splits)
    show ?thesis
      using False none Cons.IH [of ?db1] l
      by (auto split: option.splits if_splits)
  qed
qed

lemma objectStoreNames_iff:
  "s \<in> set (objectStoreNames db) \<longleftrightarrow> map_of (objectStores db) s \<noteq> None"
  by (simp add: objectStoreNames_def map_of_eq_None_iff)

lemma get_store_map_of:
  "map_of (idb st) d = Some db \<Longrightarrow> get_store st d s = map_of (objectStores db) s"
  by (simp add: get_store_def)

lemma get_store_map_of_cong:
  assumes "map_of (idb st1) d = map_of (idb st) d"
  shows "get_store st1 d s = get_store st d s"
  unfolding get_store_def assms ..

lemma openDB_result:
  assumes "openDB d (Some 1) ss st = (Inr db, st2)"
  shows "map_of (idb st2) d = Some db"
    and "get_store st d s = Some os \<Longrightarrow> map_of (objectStores db) s = Some os"
    and "map_of (idb st) d = None \<Longrightarrow> s \<in> set ss \<Longrightarrow> map_of (objectStores db) s = Some fresh_store"
proof -
  let ?new = "\<lparr>db_version = 1, objectStores = []\<rparr>"
  have one: "Some (1::nat) \<noteq> Some 0" by simp
  show "map_of (idb st2) d = Some db"
    using assms one
    by (auto simp: openDB_def indexedDB_open_def map_of_idb_set_database
             split: option.splits if_splits prod.splits)
  show "map_of (objectStores db) s = Some os" if g: "get_store st d s = Some os"
  proof -
    from g obtain db0 where db0: "map_of (idb st) d = Some db0"
      and s0: "map_of (objectStores db0) s = Some os"
      by (auto simp: get_store_def split: option.splits)
    show ?thesis
    proof (cases "db_version db0 = 1")
      case True
      with assms db0 have "db = db0" by (simp add: openDB_def indexedDB_open_def)
      with s0 show ?thesis by simp
    next
      case False
      with assms db0 have lt: "db_version db0 < 1"
        by (auto simp: openDB_def indexedDB_open_def split: if_splits)
      with assms db0
      have "db = fst (upgrade_stores d ss (db0\<lparr>db_version := 1\<rparr>) (console st))"
        by (auto simp: openDB_def indexedDB_open_def split: prod.splits)
      then show ?thesis using s0 by (simp add: upgrade_stores_lookup)
    qed
  qed
  show "map_of (objectStores db) s = Some fresh_store"
    if n: "map_of (idb st) d = None" and s: "s \<in> set ss"
  proof -
    from assms n have "db = fst (upgrade_stores d ss ?new (console st))"
      by (auto simp: openDB_def indexedDB_open_def split: prod.splits)
    then show ?thesis using s by (simp add: upgrade_stores_lookup)
  qed
qed

lemma openDB_existing:
  assumes "map_of (idb st) d = Some db" and "db_version db = 1"
  shows "openDB d (Some 1) ss st = (Inr db, connect d st)"
  using assms by (simp add: openDB_def indexedDB_open_def)

lemma restore_stores_store:
  assumes r: "restore_stores d data db ss st = (Inr (), st')"
    and dist: "distinct ss" and mem: "s \<in> set ss"
    and items: "get_prop data s = VArr items" and names: "s \<in> set (objectStoreNames db)"
    and store: "get_store st d s = Some os"
  shows "\<exists>os'. put_every_item os (map restored_item items) = Inr os' \<and> get_store st' d s = Some os'"
proof -
  from mem obtain ss1 ss2 where ss: "ss = ss1 @ s # ss2" by (auto dest: split_list)
  with dist have n1: "s \<notin> set ss1" and n2: "s \<notin> set ss2" by auto
  obtain r1 sta where a: "restore_stores d data db ss1 st = (r1, sta)"
    by (cases "restore_stores d data db ss1 st")
  have app: "restore_stores d data db ss st =
      (case (r1, sta) of (Inl e, st1) \<Rightarrow> (Inl e, st1)
       | (Inr u, st1) \<Rightarrow> restore_stores d data db (s # ss2) st1)"
    unfolding ss restore_stores_append a ..
  have r1: "r1 = Inr ()" using r app by (cases r1) auto
  then have b: "restore_stores d data db (s # ss2) sta = (Inr (), st')" using r app by simp
  have ga: "get_store sta d s = Some os"
    using restore_stores_other_store [of s ss1 d d data db st] n1 a store by simp
  note step = restore_stores_step [OF items names ga, of _ ss2]
  show ?thesis
  proof (cases "put_every_item os (map restored_item items)")
    case (Inl e)
    with step [of _ e] obtain e' where "fst (restore_stores d data db (s # ss2) sta) = Inl e'"
      by blast
    with b show ?thesis by simp
  next
    case (Inr os')
    with step [of os'] obtain stb
      where c: "restore_stores d data db (s # ss2) sta = restore_stores d data db ss2 stb"
        and gb: "get_store stb d s = Some os'" by blast
    from b c have "restore_stores d data db ss2 stb = (Inr (), st')" by simp
    then have "get_store st' d s = get_store stb d s"
      using restore_stores_other_store [of s ss2 d d data db stb] n2 by simp
    with gb Inr show ?thesis by simp
  qed
qed

lemma restore_dbs_append:
  "restore_dbs pd (ks1 @ ks2) st =
     (case restore_dbs pd ks1 st of
        (Fulfilled u, st1) \<Rightarrow> restore_dbs pd ks2 st1
      | (Rejected e, st1) \<Rightarrow> (Rejected e, st1)
      | (Pending, st1) \<Rightarrow> (Pending, st1))"
proof (induction ks1 arbitrary: st)
  case Nil
  show ?case by simp
next
  case (Cons d ks1)
  show ?case
  proof (cases "hasOwnProperty_call pd d")
    case (Inl e)
    then show ?thesis by simp
  next
    case has: (Inr b)
    show ?thesis
    proof (cases b)
      case False
      then show ?thesis using has Cons.IH by simp
    next
      case True
      show ?thesis
      proof (cases "Object_keys (get_prop pd d)")
        case (Inl e)
        then show ?thesis using has True by (simp add: Let_def)
      next
        case keys: (Inr ss)
        obtain r st2 where r:
          "(case openDB d (Some 1) ss st of
              (Inl e, st1) \<Rightarrow> (Inl e, st1)
            | (Inr db, st1) \<Rightarrow> restore_stores d (get_prop pd d) db ss st1) = (r, st2)"
          by (cases "case openDB d (Some 1) ss st of
              (Inl e, st1) \<Rightarrow> (Inl e, st1)
            | (Inr db, st1) \<Rightarrow> restore_stores d (get_prop pd d) db ss st1")
        show ?thesis
        proof (cases r)
          case (Inl error)
          then show ?thesis using has True keys r by (simp add: Let_def)
        next
          case (Inr u)
          then show ?thesis using has True keys r Cons.IH [of st2] by (simp add: Let_def)
        qed
      qed
    qed
  qed
qed

lemma restore_dbs_one:
  assumes r: "restore_dbs pd (d # ks) st = (Fulfilled (), st')"
    and pd: "pd = VObj dbs" and data: "map_of dbs d = Some (VObj stores)"
  shows "\<exists>db st2 st3. openDB d (Some 1) (map fst stores) st = (Inr db, st2)
           \<and> restore_stores d (VObj stores) db (map fst stores) st2 = (Inr (), st3)
           \<and> restore_dbs pd ks st3 = (Fulfilled (), st')"
proof -
  have gp: "get_prop pd d = VObj stores" using pd data by simp
  have mem: "d \<in> set (map fst dbs)" using data by (auto dest: map_of_SomeD intro: rev_image_eqI)
  have has: "hasOwnProperty_call pd d = Inr True"
  proof (cases "map_of dbs ''hasOwnProperty''")
    case None
    then show ?thesis using pd mem by simp
  next
    case (Some v)
    then have "restore_dbs pd (d # ks) st
        = (Rejected (TypeErrorObj ''parsedData.hasOwnProperty is not a function''), st)"
      using pd by simp
    with r show ?thesis by simp
  qed
  obtain o1 st2 where o: "openDB d (Some 1) (map fst stores) st = (o1, st2)"
    by (cases "openDB d (Some 1) (map fst stores) st")
  show ?thesis
  proof (cases o1)
    case (Inl e)
    then have "\<exists>e' st''. restore_dbs pd (d # ks) st = (Rejected e', st'')"
      using has gp o by (simp add: Let_def)
    with r show ?thesis by auto
  next
    case (Inr db)
    obtain r3 st3 where s: "restore_stores d (VObj stores) db (map fst stores) st2 = (r3, st3)"
      by (cases "restore_stores d (VObj stores) db (map fst stores) st2")
    show ?thesis
    proof (cases r3)
      case (Inl e)
      then have "\<exists>e' st''. restore_dbs pd (d # ks) st = (Rejected e', st'')"
        using has gp o Inr s by (simp add: Let_def)
      with r show ?thesis by auto
    next
      case r3: (Inr u)
      then have "restore_dbs pd (d # ks) st = restore_dbs pd ks st3"
        using has gp o Inr s by (simp add: Let_def)
      with r have "restore_dbs pd ks st3 = (Fulfilled (), st')" by simp
      with o Inr s r3 show ?thesis by simp
    qed
  qed
qed

lemma restore_dbs_store:
  assumes r: "restore_dbs (VObj dbs) (map fst dbs) st = (Fulfilled (), st')"
    and dist: "distinct (map fst dbs)" and data: "map_of dbs d = Some (VObj stores)"
    and sdist: "distinct (map fst stores)" and items: "map_of stores s = Some (VArr items)"
    and pre: "map_of (idb st) d = None \<or> get_store st d s \<noteq> None"
  shows "\<exists>os'. put_every_item (case get_store st d s of Some os \<Rightarrow> os | None \<Rightarrow> fresh_store)
                  (map restored_item items) = Inr os'
           \<and> get_store st' d s = Some os'"
proof -
  let ?pd = "VObj dbs"
  let ?os = "case get_store st d s of Some os \<Rightarrow> os | None \<Rightarrow> fresh_store"
  have mem: "d \<in> set (map fst dbs)" using data by (auto dest: map_of_SomeD intro: rev_image_eqI)
  then obtain ks1 ks2 where ks: "map fst dbs = ks1 @ d # ks2" by (auto dest: split_list)
  with dist have n1: "d \<notin> set ks1" and n2: "d \<notin> set ks2"
    by (metis distinct_append distinct.simps(2) disjoint_iff list.set_intros(1))+
  obtain r1 sta where a: "restore_dbs ?pd ks1 st = (r1, sta)" by (cases "restore_dbs ?pd ks1 st")
  have app: "restore_dbs ?pd (map fst dbs) st =
      (case (r1, sta) of (Fulfilled u, st1) \<Rightarrow> restore_dbs ?pd (d # ks2) st1
       | (Rejected e, st1) \<Rightarrow> (Rejected e, st1) | (Pending, st1) \<Rightarrow> (Pending, st1))"
    unfolding ks restore_dbs_append a ..
  have r1: "r1 = Fulfilled ()" using r app by (cases r1) auto
  then have b: "restore_dbs ?pd (d # ks2) sta = (Fulfilled (), st')" using r app by simp
  have ma: "map_of (idb sta) d = map_of (idb st) d"
    using restore_dbs_other [OF n1, of ?pd st] a by simp
  have ga: "get_store sta d s = get_store st d s" using ma by (rule get_store_map_of_cong)
  from restore_dbs_one [OF b refl data] obtain db st2 st3
    where o: "openDB d (Some 1) (map fst stores) sta = (Inr db, st2)"
      and rs: "restore_stores d (VObj stores) db (map fst stores) st2 = (Inr (), st3)"
      and rest: "restore_dbs ?pd ks2 st3 = (Fulfilled (), st')" by blast
  have smem: "s \<in> set (map fst stores)"
    using items by (auto dest: map_of_SomeD intro: rev_image_eqI)
  have dbs: "map_of (objectStores db) s = Some ?os"
  proof (cases "get_store st d s")
    case None
    with pre ma have "map_of (idb sta) d = None" by simp
    from openDB_result(3) [OF o this smem] None show ?thesis by simp
  next
    case (Some os)
    with ga have "get_store sta d s = Some os" by simp
    from openDB_result(2) [OF o this] Some show ?thesis by simp
  qed
  have g2: "get_store st2 d s = Some ?os"
    using openDB_result(1) [OF o] dbs by (simp add: get_store_map_of)
  have names: "s \<in> set (objectStoreNames db)" using dbs by (simp add: objectStoreNames_iff)
  have gp: "get_prop (VObj stores) s = VArr items" using items by simp
  from restore_stores_store [OF rs sdist smem gp names g2] obtain os'
    where p: "put_every_item ?os (map restored_item items) = Inr os'"
      and g3: "get_store st3 d s = Some os'" by blast
  have "map_of (idb st') d = map_of (idb st3) d"
    using restore_dbs_other [OF n2, of ?pd st3] rest by simp
  then have "get_store st' d s = get_store st3 d s" by (rule get_store_map_of_cong)
  with p g3 show ?thesis by simp
qed

subsection \<open>restore puts every item\<close>

lemma store_put_Key:
  assumes "keyPath os = Some kp" and "extract_key kp x = Key k"
  shows "store_put os x = Inr ((bump_generator k os)\<lparr>records := alist_set k x (records os)\<rparr>)"
  using assms by (simp add: store_put_def assign_key_def)

lemma store_put_grows:
  assumes "store_put os x = Inr os1"
  shows "keyPath os1 = keyPath os" and "fst ` set (records os) \<subseteq> fst ` set (records os1)"
proof -
  from assms obtain k v os0 where a: "assign_key os x = Inr (k, v, os0)"
    and os1: "os1 = os0\<lparr>records := alist_set k v (records os0)\<rparr>"
    by (auto simp: store_put_def split: sum.splits)
  have r: "records os0 = records os" using a by (rule assign_key_records)
  have kp: "keyPath os0 = keyPath os"
    using a by (cases "keyPath os") (auto simp: assign_key_def split: if_splits extracted.splits)
  show "keyPath os1 = keyPath os" using os1 kp by simp
  show "fst ` set (records os) \<subseteq> fst ` set (records os1)"
    using os1 r by (auto simp: set_fst_alist_set)
qed

lemma put_every_item_grows:
  assumes "put_every_item os xs = Inr os'"
  shows "keyPath os' = keyPath os \<and> fst ` set (records os) \<subseteq> fst ` set (records os')"
  using assms
proof (induction xs arbitrary: os)
  case Nil
  then show ?case by simp
next
  case (Cons x xs)
  from Cons.prems obtain os1 where p: "store_put os x = Inr os1"
    and rest: "put_every_item os1 xs = Inr os'"
    by (cases "store_put os x") simp_all
  from store_put_grows [OF p] Cons.IH [OF rest] show ?case by auto
qed

lemma put_every_item_keys:
  assumes "put_every_item os xs = Inr os'" and "keyPath os = Some kp"
    and "x \<in> set xs" and "extract_key kp x = Key k"
  shows "k \<in> fst ` set (records os')"
  using assms
proof (induction xs arbitrary: os)
  case Nil
  then show ?case by simp
next
  case (Cons y xs)
  from Cons.prems(1) obtain os1 where p: "store_put os y = Inr os1"
    and rest: "put_every_item os1 xs = Inr os'"
    by (cases "store_put os y") simp_all
  have kp1: "keyPath os1 = Some kp" using store_put_grows(1) [OF p] Cons.prems(2) by simp
  show ?case
  proof (cases "x = y")
    case True
    with p Cons.prems(2,4)
    have "os1 = (bump_generator k os)\<lparr>records := alist_set k x (records os)\<rparr>"
      by (simp add: store_put_Key)
    then have "k \<in> fst ` set (records os1)" by (simp add: set_fst_alist_set)
    with put_every_item_grows [OF rest] show ?thesis by auto
  next
    case False
    with Cons.prems(3) have "x \<in> set xs" by simp
    from Cons.IH [OF rest kp1 this Cons.prems(4)] show ?thesis .
  qed
qed

lemma restore_unknown_store:
  "restore unknown_store_backup page_with_image_db =
     (Fulfilled (),
      page_with_image_db\<lparr>console := [(Warn, ''Object store 'thumbnails' not found in 'windowImage'. Skipping restore for this store.'')],
                           dbConnections := [''windowImage'']\<rparr>)"
  by code_simp

text \<open>
  Claim C7, as stated, fails in its first half: \<open>restore\<close> does not write every item of
  the document. The items of an object store that the database does not have are skipped
  with a warning, and \<open>restore\<close> resolves with the databases as they were.
\<close>

theorem restore_skips_unknown_store_counterexample:
  "fst (restore unknown_store_backup page_with_image_db) = Fulfilled () \<and>
   idb (snd (restore unknown_store_backup page_with_image_db)) = idb page_with_image_db"
  by (simp add: restore_unknown_store)

text \<open>
  Claim C7, amended. When \<open>restore\<close> resolves, every item of the document whose database
  is new or already has the item's object store has been put into that store: the store is
  then what putting every item of the array, in order, makes of the store as \<open>_openDB\<close>
  found or created it, and every item that carries a key has a record under that key. This
  holds for items with a \<open>timestamp\<close> property as for all others: \<open>restore\<close> skips no item
  for its properties. (The items of a store that an existing database does not have are
  skipped.)
\<close>

theorem restore_puts_every_item:
  assumes "JSON_parse txt = Some (VObj dbs)" and "map_of dbs d = Some (VObj stores)"
    and "map_of stores s = Some (VArr items)"
    and "restore txt st = (Fulfilled (), st')"
    and "map_of (idb st) d = None \<or> get_store st d s \<noteq> None"
  shows "\<exists>os'. put_every_item (case get_store st d s of Some os \<Rightarrow> os | None \<Rightarrow> fresh_store)
                  (map restored_item items) = Inr os'
           \<and> get_store st' d s = Some os'
           \<and> (\<forall>x \<in> set items. \<forall>kp k. keyPath os' = Some kp
                 \<and> extract_key kp (restored_item x) = Key k \<longrightarrow> k \<in> fst ` set (records os'))"
proof -
  let ?os = "case get_store st d s of Some os \<Rightarrow> os | None \<Rightarrow> fresh_store"
  obtain j where doc: "txt = Document j" and j: "json_value j = VObj dbs"
    using assms(1) by (cases "txt") auto
  have pl: "plain (VObj dbs)" using plain_json_value [of j] j by simp
  then have dist: "distinct (map fst dbs)" and pp: "plain_props dbs" by simp_all
  from plain_props_lookup [OF pp assms(2)] have sdist: "distinct (map fst stores)" by simp
  have r: "restore_dbs (VObj dbs) (map fst dbs) st = (Fulfilled (), st')"
    using assms(1,4) by (simp add: restore_def)
  from restore_dbs_store [OF r dist assms(2) sdist assms(3,5)] obtain os'
    where p: "put_every_item ?os (map restored_item items) = Inr os'"
      and g: "get_store st' d s = Some os'" by blast
  have "\<forall>x \<in> set items. \<forall>kp k. keyPath os' = Some kp
          \<and> extract_key kp (restored_item x) = Key k \<longrightarrow> k \<in> fst ` set (records os')"
  proof (intro ballI allI impI)
    fix x kp k
    assume x: "x \<in> set items"
      and a: "keyPath os' = Some kp \<and> extract_key kp (restored_item x) = Key k"
    from put_every_item_grows [OF p] a have kp: "keyPath ?os = Some kp" by simp
    from x have "restored_item x \<in> set (map restored_item items)" by simp
    from put_every_item_keys [OF p kp this] a show "k \<in> fst ` set (records os')" by simp
  qed
  with p g show ?thesis by blast
qed

theorem restore_puts_every_item_witness:
  "JSON_parse timestamped_backup
     = Some (VObj [(''windowImage'', VObj [(''images'', VArr [json_value (JObj timestamped_item)])])]) \<and>
   map_of [(''timestamp'', VStr ''2023-11-14T22:13:20.000Z'')] ''timestamp'' \<noteq> None \<and>
   fst (restore timestamped_backup page_with_image_db) = Fulfilled () \<and>
   get_store page_with_image_db ''windowImage'' ''images'' = Some image_store_empty \<and>
   (\<exists>os'. put_every_item image_store_empty [restored_item (json_value (JObj timestamped_item))] = Inr os'
       \<and> get_store (snd (restore timestamped_backup page_with_image_db)) ''windowImage'' ''images''
           = Some os'
       \<and> KStr ''current-image'' \<in> fst ` set (records os'))"
proof -
  let ?item = "json_value (JObj timestamped_item)"
  let ?stores = "[(''images'', VArr [?item])]"
  let ?dbs = "[(''windowImage'', VObj ?stores)]"
  let ?st' = "snd (restore timestamped_backup page_with_image_db)"
  have a: "JSON_parse timestamped_backup = Some (VObj ?dbs)"
    by (simp add: timestamped_backup_def set_property_names)
  have b: "map_of ?dbs ''windowImage'' = Some (VObj ?stores)" by simp
  have c: "map_of ?stores ''images'' = Some (VArr [?item])" by simp
  have f: "fst (restore timestamped_backup page_with_image_db) = Fulfilled ()" by code_simp
  then have r: "restore timestamped_backup page_with_image_db = (Fulfilled (), ?st')"
    by (metis prod.collapse)
  have g: "get_store page_with_image_db ''windowImage'' ''images'' = Some image_store_empty"
    by (simp add: get_store_def page_with_image_db_def)
  then have e: "map_of (idb page_with_image_db) ''windowImage'' = None
      \<or> get_store page_with_image_db ''windowImage'' ''images'' \<noteq> None" by simp
  from restore_puts_every_item [OF a b c r e] obtain os'
    where p: "put_every_item image_store_empty (map restored_item [?item]) = Inr os'"
      and s: "get_store ?st' ''windowImage'' ''images'' = Some os'"
      and k: "\<forall>x \<in> set [?item]. \<forall>kp k. keyPath os' = Some kp
                 \<and> extract_key kp (restored_item x) = Key k \<longrightarrow> k \<in> fst ` set (records os')"
    unfolding g by auto
  have kp: "keyPath os' = Some ''id''"
    using put_every_item_grows [OF p] by (simp add: image_store_empty_def)
  have ek: "extract_key ''id'' (restored_item ?item) = Key (KStr ''current-image'')"
    by code_simp
  from k kp ek have "KStr ''current-image'' \<in> fst ` set (records os')" by simp
  with a f g p s show ?thesis by auto
qed

subsection \<open>Objects made by assigning properties\<close>

lemma assigned_map_of:
  "map_of (foldl (\<lambda>acc d. set_property d (f d) acc) acc names) k
     = (if k \<in> set names then Some (f k) else map_of acc k)"
  by (induction names arbitrary: acc) (simp_all add: map_of_set_property)

lemma assigned_distinct:
  "distinct (map fst acc) \<Longrightarrow>
   distinct (map fst (foldl (\<lambda>acc d. set_property d (f d) acc) acc names))"
  by (induction names arbitrary: acc) (simp_all add: distinct_set_property)

lemma assigned_order:
  "distinct (map fst acc) \<Longrightarrow> own_property_order (map fst acc) \<Longrightarrow>
   own_property_order (map fst (foldl (\<lambda>acc d. set_property d (f d) acc) acc names))"
  by (induction names arbitrary: acc)
     (simp_all add: distinct_set_property own_order_set_property)

lemma assigned_names:
  "fst ` set (foldl (\<lambda>acc d. set_property d (f d) acc) acc names) = fst ` set acc \<union> set names"
  by (induction names arbitrary: acc) (auto simp: set_fst_set_property)

lemma assigned_plain:
  "plain_props acc \<Longrightarrow> \<forall>d \<in> set names. plain (f d) \<Longrightarrow>
   plain_props (foldl (\<lambda>acc d. set_property d (f d) acc) acc names)"
  by (induction names arbitrary: acc) (simp_all add: plain_props_set_property)

lemma object_of_map:
  "object_of (map (\<lambda>d. (d, f d)) names) = VObj (foldl (\<lambda>acc d. set_property d (f d) acc) [] names)"
  by (simp add: object_of_def foldl_map)

lemma plain_object_of:
  assumes "\<forall>d \<in> set names. plain (f d)"
  shows "plain (object_of (map (\<lambda>d. (d, f d)) names))"
  unfolding object_of_map
  using assigned_distinct [of "[]" f names] assigned_order [of "[]" f names]
    assigned_plain [of "[]" names f] assms
  by (simp add: own_property_order_def)

subsection \<open>backup, when no record holds a Blob\<close>

lemma backup_fields_unchanged:
  assumes "list_all (\<lambda>q. \<not> is_blob (snd q)) ps"
  shows "backup_fields readable ps = (ps, False, [])"
  using assms
proof (induction ps)
  case Nil
  show ?case by simp
next
  case (Cons p ps)
  then have "backup_fields readable ps = (ps, False, [])" and "\<not> is_blob (snd p)" by simp_all
  then show ?case by (cases "snd p") simp_all
qed

lemma backup_cursor_no_blob:
  "list_all (\<lambda>r. list_all (\<lambda>q. \<not> is_blob (snd q)) (spread (snd r))) rs \<Longrightarrow>
   backup_cursor readable rs acc st = (Fulfilled (acc @ map (\<lambda>r. VObj (spread (snd r))) rs), st)"
proof (induction rs arbitrary: acc)
  case Nil
  show ?case by simp
next
  case (Cons r rs)
  then have "backup_fields readable (spread (snd r)) = (spread (snd r), False, [])"
    by (simp add: backup_fields_unchanged)
  with Cons show ?case by simp
qed

lemma store_no_blob:
  assumes "no_blob_property db" and "map_of (objectStores db) s = Some store"
  shows "backup_cursor readable (cursor_records store) [] st = (Fulfilled (store_items store), st)"
proof -
  from assms(2) have "(s, store) \<in> set (objectStores db)" by (rule map_of_SomeD)
  with assms(1)
  have "list_all (\<lambda>r. list_all (\<lambda>q. \<not> is_blob (snd q)) (spread (snd r))) (records store)"
    unfolding no_blob_property_def list_all_iff by fastforce
  then have "list_all (\<lambda>r. list_all (\<lambda>q. \<not> is_blob (snd q)) (spread (snd r))) (cursor_records store)"
    by (simp add: cursor_records_def list_all_iff)
  from backup_cursor_no_blob [OF this, of readable "[]" st] show ?thesis
    by (simp add: store_items_def)
qed

lemma backup_stores_no_blob:
  assumes "no_blob_property db"
  shows "set ss \<subseteq> fst ` set (objectStores db) \<Longrightarrow>
     backup_stores readable db ss acc st =
       (Fulfilled (foldl (\<lambda>acc s. set_property s
            (VArr (case map_of (objectStores db) s of
                     Some store \<Rightarrow> store_items store | None \<Rightarrow> [])) acc) acc ss), st)"
proof (induction ss arbitrary: acc)
  case Nil
  show ?case by simp
next
  case (Cons s ss)
  then have "s \<in> fst ` set (objectStores db)" by simp
  then obtain store where store: "map_of (objectStores db) s = Some store"
    by (metis domD dom_map_of_conv_image_fst)
  from Cons.prems have sub: "set ss \<subseteq> fst ` set (objectStores db)" by simp
  show ?case
    by (simp add: store store_no_blob [OF assms store] Cons.IH [OF sub])
qed

lemma backup_database:
  assumes "no_blob_property db"
  shows "backup_stores readable db (objectStoreNames db) [] st
           = (Fulfilled (spread (backup_of_database db)), st)"
proof -
  have "set (objectStoreNames db) \<subseteq> fst ` set (objectStores db)"
    by (simp add: objectStoreNames_def)
  from backup_stores_no_blob [OF assms this, of readable "[]" st] show ?thesis
    by (simp add: backup_of_database_def object_of_map)
qed

lemma VObj_spread_backup: "VObj (spread (backup_of_database db)) = backup_of_database db"
  by (simp add: backup_of_database_def object_of_map)

lemma openDB_None:
  "\<exists>st1. openDB d None [] st = (Inr (database_of st d), st1)
     \<and> (\<forall>d'. map_of (idb st1) d' = (if d' = d then Some (database_of st d) else map_of (idb st) d'))"
proof (cases "map_of (idb st) d")
  case None
  then show ?thesis
    by (simp add: openDB_def indexedDB_open_def database_of_def map_of_idb_set_database)
next
  case (Some db)
  then show ?thesis
    by (auto simp: openDB_def indexedDB_open_def database_of_def idb_connect)
qed

lemma backup_dbs_no_blob:
  assumes "\<forall>d \<in> set names. no_blob_property (database_of st d)"
  shows "\<exists>st1. backup_dbs readable names acc st =
           (Fulfilled (JSON_stringify
              (VObj (foldl (\<lambda>acc d. set_property d (backup_of_database (database_of st d)) acc)
                       acc names))), st1)
         \<and> (\<forall>d. map_of (idb st1) d
                = (if d \<in> set names then Some (database_of st d) else map_of (idb st) d))"
  using assms
proof (induction names arbitrary: acc st)
  case Nil
  show ?case by simp
next
  case (Cons d names)
  from openDB_None [of d st] obtain st1
    where o: "openDB d None [] st = (Inr (database_of st d), st1)"
      and m1: "\<forall>d'. map_of (idb st1) d' = (if d' = d then Some (database_of st d) else map_of (idb st) d')"
    by blast
  let ?db = "database_of st d"
  have nb: "no_blob_property ?db" using Cons.prems by simp
  let ?acc = "set_property d (backup_of_database ?db) acc"
  have same: "database_of st1 d' = database_of st d'" for d'
    using m1 by (simp add: database_of_def)
  have h: "\<forall>d' \<in> set names. no_blob_property (database_of st1 d')"
    using Cons.prems same by simp
  from Cons.IH [OF h, of ?acc] obtain st2
    where r: "backup_dbs readable names ?acc st1 =
           (Fulfilled (JSON_stringify
              (VObj (foldl (\<lambda>acc d. set_property d (backup_of_database (database_of st1 d)) acc)
                       ?acc names))), st2)"
      and m2: "\<forall>d'. map_of (idb st2) d'
                = (if d' \<in> set names then Some (database_of st1 d') else map_of (idb st1) d')"
    by blast
  have step: "backup_dbs readable (d # names) acc st = backup_dbs readable names ?acc st1"
    by (simp add: o backup_database [OF nb] VObj_spread_backup)
  have "\<forall>d'. map_of (idb st2) d'
          = (if d' \<in> set (d # names) then Some (database_of st d') else map_of (idb st) d')"
    using m1 m2 same by auto
  with step r show ?case by (simp add: same)
qed

lemma backup_resolves:
  assumes "\<forall>d \<in> set names. no_blob_property (database_of st d)"
  shows "\<exists>st1. backup readable names st = (Fulfilled (JSON_stringify (backup_of names st)), st1)
         \<and> (\<forall>d. map_of (idb st1) d
                = (if d \<in> set names then Some (database_of st d) else map_of (idb st) d))"
  using backup_dbs_no_blob [OF assms, of readable "[]"]
  by (simp add: backup_def backup_of_def object_of_map)

lemma sorted_cursor_records: "sorted (map fst (cursor_records store))"
  by (simp add: cursor_records_def)

subsection \<open>When restore succeeds, and what it leaves in a store\<close>

lemma put_every_item_untouched:
  assumes "put_every_item os xs = Inr os'" and "keyPath os = Some kp"
    and "\<forall>x \<in> set xs. \<exists>k'. extract_key kp x = Key k' \<and> k' \<noteq> k"
  shows "map_of (records os') k = map_of (records os) k"
  using assms
proof (induction xs arbitrary: os)
  case Nil
  then show ?case by simp
next
  case (Cons x xs)
  from Cons.prems(3) obtain k' where k': "extract_key kp x = Key k'" and ne: "k' \<noteq> k" by auto
  let ?os1 = "(bump_generator k' os)\<lparr>records := alist_set k' x (records os)\<rparr>"
  have p: "store_put os x = Inr ?os1" using Cons.prems(2) k' by (rule store_put_Key)
  with Cons.prems(1) have rest: "put_every_item ?os1 xs = Inr os'" by simp
  have kp1: "keyPath ?os1 = Some kp" using Cons.prems(2) by simp
  have "map_of (records os') k = map_of (records ?os1) k"
    using rest kp1 Cons.prems(3) by (intro Cons.IH) simp_all
  also have "\<dots> = map_of (records os) k" using ne by (simp add: map_of_alist_set)
  finally show ?case .
qed

lemma put_every_item_distinct:
  assumes "keyPath os = Some kp" and "\<forall>x \<in> set xs. \<exists>k. extract_key kp x = Key k"
    and "distinct (map (extract_key kp) xs)"
  shows "\<exists>os'. put_every_item os xs = Inr os'
           \<and> (\<forall>x \<in> set xs. \<forall>k. extract_key kp x = Key k \<longrightarrow> map_of (records os') k = Some x)"
  using assms
proof (induction xs arbitrary: os)
  case Nil
  show ?case by simp
next
  case (Cons x xs)
  from Cons.prems(2) obtain k where k: "extract_key kp x = Key k" by auto
  let ?os1 = "(bump_generator k os)\<lparr>records := alist_set k x (records os)\<rparr>"
  have p: "store_put os x = Inr ?os1" using Cons.prems(1) k by (rule store_put_Key)
  have kp1: "keyPath ?os1 = Some kp" using Cons.prems(1) by simp
  have all: "\<forall>y \<in> set xs. \<exists>k. extract_key kp y = Key k" using Cons.prems(2) by simp
  have dist: "distinct (map (extract_key kp) xs)" using Cons.prems(3) by simp
  from Cons.IH [OF kp1 all dist] obtain os'
    where r: "put_every_item ?os1 xs = Inr os'"
      and l: "\<forall>y \<in> set xs. \<forall>k. extract_key kp y = Key k \<longrightarrow> map_of (records os') k = Some y"
    by blast
  have other: "\<forall>y \<in> set xs. \<exists>k'. extract_key kp y = Key k' \<and> k' \<noteq> k"
  proof
    fix y assume y: "y \<in> set xs"
    with all obtain k' where k': "extract_key kp y = Key k'" by auto
    from Cons.prems(3) y have "extract_key kp x \<noteq> extract_key kp y" by auto
    with k k' show "\<exists>k'. extract_key kp y = Key k' \<and> k' \<noteq> k" by auto
  qed
  have "map_of (records os') k = map_of (records ?os1) k"
    using r kp1 other by (rule put_every_item_untouched)
  then have x: "map_of (records os') k = Some x" by (simp add: map_of_alist_set)
  have "put_every_item os (x # xs) = Inr os'" using p r by simp
  moreover have "\<forall>y \<in> set (x # xs). \<forall>k'. extract_key kp y = Key k' \<longrightarrow> map_of (records os') k' = Some y"
    using k x l by auto
  ultimately show ?case by blast
qed

lemma restore_stores_succeeds:
  assumes "distinct ss"
    and "\<forall>s \<in> set ss. \<exists>items. get_prop data s = VArr items \<and>
           (items = [] \<or> (s \<in> set (objectStoreNames db) \<and>
              (\<exists>os os'. get_store st d s = Some os
                 \<and> put_every_item os (map restored_item items) = Inr os')))"
  shows "fst (restore_stores d data db ss st) = Inr ()"
  using assms
proof (induction ss arbitrary: st)
  case Nil
  show ?case by simp
next
  case (Cons s ss)
  from Cons.prems(2) obtain items where gp: "get_prop data s = VArr items"
    and ok: "items = [] \<or> (s \<in> set (objectStoreNames db) \<and>
              (\<exists>os os'. get_store st d s = Some os
                 \<and> put_every_item os (map restored_item items) = Inr os'))"
    by auto
  have dist: "distinct ss" and ns: "s \<notin> set ss" using Cons.prems(1) by simp_all
  have "\<exists>st1. restore_stores d data db (s # ss) st = restore_stores d data db ss st1
          \<and> (\<forall>s'. s' \<noteq> s \<longrightarrow> get_store st1 d s' = get_store st d s')"
  proof (cases "items = []")
    case True
    then have "restore_stores d data db (s # ss) st = restore_stores d data db ss st"
      using gp by (simp add: Let_def)
    then show ?thesis by blast
  next
    case False
    with ok obtain os os' where names: "s \<in> set (objectStoreNames db)"
      and g: "get_store st d s = Some os"
      and p: "put_every_item os (map restored_item items) = Inr os'" by blast
    from restore_stores_step [OF gp names g, of os' ss] p show ?thesis by blast
  qed
  then obtain st1 where step: "restore_stores d data db (s # ss) st = restore_stores d data db ss st1"
    and frame: "\<forall>s'. s' \<noteq> s \<longrightarrow> get_store st1 d s' = get_store st d s'" by blast
  have "\<forall>s' \<in> set ss. \<exists>items. get_prop data s' = VArr items \<and>
           (items = [] \<or> (s' \<in> set (objectStoreNames db) \<and>
              (\<exists>os os'. get_store st1 d s' = Some os
                 \<and> put_every_item os (map restored_item items) = Inr os')))"
  proof
    fix s' assume s': "s' \<in> set ss"
    with ns have "s' \<noteq> s" by auto
    with frame have "get_store st1 d s' = get_store st d s'" by simp
    with Cons.prems(2) s' show "\<exists>items. get_prop data s' = VArr items \<and>
           (items = [] \<or> (s' \<in> set (objectStoreNames db) \<and>
              (\<exists>os os'. get_store st1 d s' = Some os
                 \<and> put_every_item os (map restored_item items) = Inr os')))"
      by simp
  qed
  from Cons.IH [OF dist this] step show ?case by simp
qed

lemma openDB_opens:
  assumes "\<forall>db. map_of (idb st) d = Some db \<longrightarrow> db_version db = 1"
  shows "\<exists>db st2. openDB d (Some 1) ss st = (Inr db, st2)"
proof (cases "map_of (idb st) d")
  case None
  then show ?thesis
    by (simp add: openDB_def indexedDB_open_def split: prod.splits)
next
  case (Some db)
  with assms have "db_version db = 1" by simp
  with Some have "openDB d (Some 1) ss st = (Inr db, connect d st)" by (rule openDB_existing)
  then show ?thesis by blast
qed

lemma restore_dbs_succeeds:
  assumes "distinct ks" and "map_of dbs ''hasOwnProperty'' = None"
    and "\<forall>d \<in> set ks. \<exists>stores. map_of dbs d = Some (VObj stores) \<and> distinct (map fst stores)
           \<and> (\<forall>db. map_of (idb st) d = Some db \<longrightarrow> db_version db = 1)
           \<and> (\<forall>s v. map_of stores s = Some v \<longrightarrow>
                 (\<exists>items. v = VArr items \<and>
                    (items = [] \<or>
                     (\<exists>os os'. (if map_of (idb st) d = None then os = fresh_store
                                else get_store st d s = Some os)
                        \<and> put_every_item os (map restored_item items) = Inr os'))))"
  shows "fst (restore_dbs (VObj dbs) ks st) = Fulfilled ()"
  using assms(1,3)
proof (induction ks arbitrary: st)
  case Nil
  show ?case by simp
next
  case (Cons d ks)
  let ?pd = "VObj dbs"
  from Cons.prems(2) obtain stores where data: "map_of dbs d = Some (VObj stores)"
    and sdist: "distinct (map fst stores)"
    and ver: "\<forall>db. map_of (idb st) d = Some db \<longrightarrow> db_version db = 1"
    and puts: "\<forall>s v. map_of stores s = Some v \<longrightarrow>
                 (\<exists>items. v = VArr items \<and>
                    (items = [] \<or>
                     (\<exists>os os'. (if map_of (idb st) d = None then os = fresh_store
                                else get_store st d s = Some os)
                        \<and> put_every_item os (map restored_item items) = Inr os')))"
    by auto
  have dist: "distinct ks" and nd: "d \<notin> set ks" using Cons.prems(1) by simp_all
  have mem: "d \<in> set (map fst dbs)" using data by (auto dest: map_of_SomeD intro: rev_image_eqI)
  have has: "hasOwnProperty_call ?pd d = Inr True" using assms(2) mem by simp
  have gp: "get_prop ?pd d = VObj stores" using data by simp
  from openDB_opens [OF ver] obtain db st2
    where o: "openDB d (Some 1) (map fst stores) st = (Inr db, st2)" by blast
  have "\<forall>s \<in> set (map fst stores). \<exists>items. get_prop (VObj stores) s = VArr items \<and>
           (items = [] \<or> (s \<in> set (objectStoreNames db) \<and>
              (\<exists>os os'. get_store st2 d s = Some os
                 \<and> put_every_item os (map restored_item items) = Inr os')))"
  proof
    fix s assume s: "s \<in> set (map fst stores)"
    then obtain v where v: "map_of stores s = Some v"
      by (metis domD dom_map_of_conv_image_fst set_map)
    with puts obtain items where items: "v = VArr items"
      and ok: "items = [] \<or>
                     (\<exists>os os'. (if map_of (idb st) d = None then os = fresh_store
                                else get_store st d s = Some os)
                        \<and> put_every_item os (map restored_item items) = Inr os')"
      by blast
    have g: "get_prop (VObj stores) s = VArr items" using v items by simp
    show "\<exists>items. get_prop (VObj stores) s = VArr items \<and>
           (items = [] \<or> (s \<in> set (objectStoreNames db) \<and>
              (\<exists>os os'. get_store st2 d s = Some os
                 \<and> put_every_item os (map restored_item items) = Inr os')))"
    proof (cases "items = []")
      case True
      with g show ?thesis by blast
    next
      case False
      with ok obtain os os'
        where w: "if map_of (idb st) d = None then os = fresh_store else get_store st d s = Some os"
          and p: "put_every_item os (map restored_item items) = Inr os'" by blast
      have m: "map_of (objectStores db) s = Some os"
      proof (cases "map_of (idb st) d")
        case None
        with w have "os = fresh_store" by simp
        with openDB_result(3) [OF o None s] show ?thesis by simp
      next
        case (Some db0)
        with w have "get_store st d s = Some os" by simp
        from openDB_result(2) [OF o this] show ?thesis .
      qed
      then have "s \<in> set (objectStoreNames db)" by (simp add: objectStoreNames_iff)
      moreover have "get_store st2 d s = Some os"
        using openDB_result(1) [OF o] m by (simp add: get_store_map_of)
      ultimately show ?thesis using g p by blast
    qed
  qed
  from restore_stores_succeeds [OF sdist this]
  have rs: "fst (restore_stores d (VObj stores) db (map fst stores) st2) = Inr ()" .
  obtain st3 where s3: "restore_stores d (VObj stores) db (map fst stores) st2 = (Inr (), st3)"
    using rs by (metis prod.collapse)
  have step: "restore_dbs ?pd (d # ks) st = restore_dbs ?pd ks st3"
    using has gp o s3 by (simp add: Let_def)
  have frame: "map_of (idb st3) d' = map_of (idb st) d'" if "d' \<noteq> d" for d'
  proof -
    have "map_of (idb st3) d' = map_of (idb st2) d'"
      using restore_stores_other [OF that, of "VObj stores" db "map fst stores" st2] s3 by simp
    also have "\<dots> = map_of (idb st) d'"
      using openDB_other [OF that, of "Some 1" "map fst stores" st] unfolding o snd_conv .
    finally show ?thesis .
  qed
  have "\<forall>d' \<in> set ks. \<exists>stores. map_of dbs d' = Some (VObj stores) \<and> distinct (map fst stores)
           \<and> (\<forall>db. map_of (idb st3) d' = Some db \<longrightarrow> db_version db = 1)
           \<and> (\<forall>s v. map_of stores s = Some v \<longrightarrow>
                 (\<exists>items. v = VArr items \<and>
                    (items = [] \<or>
                     (\<exists>os os'. (if map_of (idb st3) d' = None then os = fresh_store
                                else get_store st3 d' s = Some os)
                        \<and> put_every_item os (map restored_item items) = Inr os'))))"
  proof
    fix d' assume d': "d' \<in> set ks"
    with nd have ne: "d' \<noteq> d" by auto
    have m: "map_of (idb st3) d' = map_of (idb st) d'" using ne by (rule frame)
    have g: "get_store st3 d' s = get_store st d' s" for s using m by (rule get_store_map_of_cong)
    from Cons.prems(2) d' show "\<exists>stores. map_of dbs d' = Some (VObj stores) \<and> distinct (map fst stores)
           \<and> (\<forall>db. map_of (idb st3) d' = Some db \<longrightarrow> db_version db = 1)
           \<and> (\<forall>s v. map_of stores s = Some v \<longrightarrow>
                 (\<exists>items. v = VArr items \<and>
                    (items = [] \<or>
                     (\<exists>os os'. (if map_of (idb st3) d' = None then os = fresh_store
                                else get_store st3 d' s = Some os)
                        \<and> put_every_item os (map restored_item items) = Inr os'))))"
      unfolding m g by simp
  qed
  from Cons.IH [OF dist this] step show ?case by simp
qed

subsection \<open>Plain databases\<close>

lemma plain_recordD:
  assumes "plain_record kp r"
  obtains ps where "snd r = VObj ps" and "plain (VObj ps)"
    and "\<forall>p \<in> set ps. \<not> is_file_data (snd p)" and "extract_key kp (VObj ps) = Key (fst r)"
  using assms by (auto simp: plain_record_def list_all_iff split: jsval.splits)

lemma plain_storeD:
  assumes "plain_store store"
  obtains kp where "keyPath store = Some kp" and "distinct (map fst (records store))"
    and "\<forall>r \<in> set (records store). plain_record kp r"
  using assms by (auto simp: plain_store_def list_all_iff split: option.splits)

lemma plain_database_store:
  assumes "plain_database db" and "(s, store) \<in> set (objectStores db)"
  shows "plain_store store"
  using assms by (auto simp: plain_database_def list_all_iff)

lemma plain_record_no_blob:
  assumes "plain_record kp r"
  shows "list_all (\<lambda>q. \<not> is_blob (snd q)) (spread (snd r))"
proof -
  from assms obtain ps where r: "snd r = VObj ps" and p: "plain (VObj ps)"
    by (rule plain_recordD)
  from p have "\<forall>p \<in> set ps. plain (snd p)" by (simp add: plain_props_iff)
  then have "\<forall>p \<in> set ps. \<not> is_blob (snd p)"
    by (metis is_blob.elims(2) plain.simps(7))
  then show ?thesis by (simp add: r list_all_iff)
qed

lemma plain_no_blob:
  assumes "plain_database db"
  shows "no_blob_property db"
  unfolding no_blob_property_def list_all_iff
proof (intro ballI)
  fix p r q assume p: "p \<in> set (objectStores db)" and r: "r \<in> set (records (snd p))"
    and q: "q \<in> set (spread (snd r))"
  from p have "(fst p, snd p) \<in> set (objectStores db)" by simp
  with assms have "plain_store (snd p)" by (rule plain_database_store)
  then obtain kp where "\<forall>r \<in> set (records (snd p)). plain_record kp r" by (rule plain_storeD)
  with r have "plain_record kp r" by simp
  then have "list_all (\<lambda>q. \<not> is_blob (snd q)) (spread (snd r))" by (rule plain_record_no_blob)
  with q show "\<not> is_blob (snd q)" by (simp add: list_all_iff)
qed

lemma restored_item_plain:
  assumes "plain_record kp r"
  shows "restored_item (snd r) = snd r"
proof -
  from assms obtain ps where r: "snd r = VObj ps"
    and nf: "\<forall>p \<in> set ps. \<not> is_file_data (snd p)" by (rule plain_recordD)
  have "map (\<lambda>p. (fst p, restored_value (snd p))) ps = ps"
    using nf by (intro map_idI) (simp add: restored_value_def)
  then show ?thesis by (simp add: r)
qed

lemma set_cursor_records: "set (cursor_records store) = set (records store)"
  by (simp add: cursor_records_def)

lemma store_items_plain:
  assumes "plain_store store"
  shows "store_items store = map snd (cursor_records store)"
proof -
  from assms obtain kp where pr: "\<forall>r \<in> set (records store). plain_record kp r"
    by (rule plain_storeD)
  have "VObj (spread (snd r)) = snd r" if "r \<in> set (cursor_records store)" for r
  proof -
    from that pr have "plain_record kp r" by (simp add: set_cursor_records)
    then obtain ps where "snd r = VObj ps" by (rule plain_recordD)
    then show ?thesis by simp
  qed
  then show ?thesis unfolding store_items_def by (intro map_cong) simp_all
qed

lemma plain_store_items:
  assumes "plain_store store"
  shows "plain_list (store_items store)"
proof -
  from assms obtain kp where pr: "\<forall>r \<in> set (records store). plain_record kp r"
    by (rule plain_storeD)
  have "plain (snd r)" if "r \<in> set (records store)" for r
  proof -
    from that pr have "plain_record kp r" by simp
    then obtain ps where "snd r = VObj ps" and "plain (VObj ps)" by (rule plain_recordD)
    then show ?thesis by simp
  qed
  then show ?thesis
    by (auto simp: store_items_plain [OF assms] plain_list_iff set_cursor_records)
qed

lemma plain_backup_of_database:
  assumes "plain_database db"
  shows "plain (backup_of_database db)"
proof -
  have "plain (VArr (case map_of (objectStores db) s of Some store \<Rightarrow> store_items store | None \<Rightarrow> []))"
    for s
  proof (cases "map_of (objectStores db) s")
    case None
    then show ?thesis by simp
  next
    case (Some store)
    then have "(s, store) \<in> set (objectStores db)" by (rule map_of_SomeD)
    with assms have "plain_store store" by (rule plain_database_store)
    with Some show ?thesis by (simp add: plain_store_items)
  qed
  then show ?thesis unfolding backup_of_database_def by (intro plain_object_of) simp
qed

lemma plain_backup_of:
  assumes "\<forall>d \<in> set names. plain_database (database_of st d)"
  shows "plain (backup_of names st)"
  unfolding backup_of_def using assms by (intro plain_object_of) (simp add: plain_backup_of_database)

lemma plain_store_put:
  assumes "plain_store store" and "keyPath os = keyPath store"
  shows "\<exists>os'. put_every_item os (map restored_item (store_items store)) = Inr os'
           \<and> (\<forall>k. map_of (records os') k
                  = (case map_of (records store) k of
                       Some v \<Rightarrow> Some v
                     | None \<Rightarrow> map_of (records os) k))"
proof -
  from assms(1) obtain kp where kp: "keyPath store = Some kp"
    and dist: "distinct (map fst (records store))"
    and pr: "\<forall>r \<in> set (records store). plain_record kp r"
    by (rule plain_storeD)
  let ?rs = "cursor_records store"
  let ?items = "map snd ?rs"
  have key: "extract_key kp (snd r) = Key (fst r)" if "r \<in> set (records store)" for r
  proof -
    from that pr have "plain_record kp r" by simp
    then obtain ps where "snd r = VObj ps" and "extract_key kp (VObj ps) = Key (fst r)"
      by (rule plain_recordD)
    then show ?thesis by simp
  qed
  have same: "map restored_item (store_items store) = ?items"
    unfolding store_items_plain [OF assms(1)] map_map
  proof (rule map_cong [OF refl])
    fix r assume "r \<in> set ?rs"
    with pr have "plain_record kp r" by (simp add: set_cursor_records)
    then show "(restored_item \<circ> snd) r = snd r" by (simp add: restored_item_plain)
  qed
  have k1: "keyPath os = Some kp" using assms(2) kp by simp
  have keys: "map (extract_key kp) ?items = map (\<lambda>r. Key (fst r)) ?rs"
    unfolding map_map by (rule map_cong [OF refl]) (simp add: key set_cursor_records)
  have all: "\<forall>x \<in> set ?items. \<exists>k. extract_key kp x = Key k"
    using key by (auto simp: set_cursor_records)
  have "distinct (map fst ?rs)"
    using dist by (simp add: cursor_records_def distinct_map)
  then have "distinct (map (\<lambda>r. Key (fst r)) ?rs)"
    by (simp add: distinct_map inj_on_def)
  then have d2: "distinct (map (extract_key kp) ?items)" unfolding keys .
  from put_every_item_distinct [OF k1 all d2] obtain os'
    where p: "put_every_item os ?items = Inr os'"
      and l: "\<forall>x \<in> set ?items. \<forall>k. extract_key kp x = Key k \<longrightarrow> map_of (records os') k = Some x"
    by blast
  have "map_of (records os') k
      = (case map_of (records store) k of Some v \<Rightarrow> Some v | None \<Rightarrow> map_of (records os) k)" for k
  proof (cases "map_of (records store) k")
    case (Some v)
    then have m: "(k, v) \<in> set (records store)" by (rule map_of_SomeD)
    then have "v \<in> set ?items" by (auto simp: set_cursor_records intro: rev_image_eqI)
    moreover have "extract_key kp v = Key k" using key [OF m] by simp
    ultimately have "map_of (records os') k = Some v" using l by blast
    with Some show ?thesis by simp
  next
    case None
    have "\<forall>x \<in> set ?items. \<exists>k'. extract_key kp x = Key k' \<and> k' \<noteq> k"
    proof
      fix x assume "x \<in> set ?items"
      then obtain r where r: "r \<in> set (records store)" and x: "x = snd r"
        by (auto simp: set_cursor_records)
      from None r have "fst r \<noteq> k"
        by (metis domIff dom_map_of_conv_image_fst image_eqI)
      with key [OF r] x show "\<exists>k'. extract_key kp x = Key k' \<and> k' \<noteq> k" by simp
    qed
    from put_every_item_untouched [OF p k1 this] None show ?thesis by simp
  qed
  with p same show ?thesis by simp
qed

subsection \<open>Restoring the backup of plain databases\<close>

lemma store_items_empty: "records store = [] \<Longrightarrow> store_items store = []"
  by (simp add: store_items_def cursor_records_def)

lemma plain_store_put_any:
  assumes "plain_store store" and "records store = [] \<or> keyPath os = keyPath store"
  shows "\<exists>os'. put_every_item os (map restored_item (store_items store)) = Inr os'
           \<and> (\<forall>k. map_of (records os') k
                  = (case map_of (records store) k of
                       Some v \<Rightarrow> Some v
                     | None \<Rightarrow> map_of (records os) k))"
proof (cases "records store = []")
  case True
  then show ?thesis by (simp add: store_items_empty)
next
  case False
  with assms(2) have "keyPath os = keyPath store" by simp
  with assms(1) show ?thesis by (rule plain_store_put)
qed

lemma restorable_store:
  assumes "restorable_into target d db" and "(s, store) \<in> set (objectStores db)"
  shows "\<exists>os. (if map_of (idb target) d = None then os = fresh_store
               else get_store target d s = Some os)
           \<and> (records store = [] \<or> keyPath os = keyPath store)
           \<and> (case get_store target d s of Some t \<Rightarrow> t | None \<Rightarrow> fresh_store) = os
           \<and> (map_of (idb target) d = None \<or> get_store target d s \<noteq> None)
           \<and> (case get_store target d s of Some t \<Rightarrow> map_of (records t) | None \<Rightarrow> Map.empty)
               = map_of (records os)"
proof (cases "map_of (idb target) d")
  case None
  with assms(1) have "\<forall>p \<in> set (objectStores db). records (snd p) = [] \<or> keyPath (snd p) = Some ''id''"
    by (simp add: restorable_into_def list_all_iff)
  from bspec [OF this assms(2)] have "records store = [] \<or> keyPath store = Some ''id''" by simp
  with None show ?thesis by (auto simp: get_store_def fresh_store_def)
next
  case (Some db_t)
  with assms(1) have "\<forall>p \<in> set (objectStores db).
      (case map_of (objectStores db_t) (fst p) of
         None \<Rightarrow> False
       | Some store_t \<Rightarrow> keyPath store_t = keyPath (snd p))"
    by (simp add: restorable_into_def list_all_iff)
  from bspec [OF this assms(2)]
  have "case map_of (objectStores db_t) s of
         None \<Rightarrow> False
       | Some store_t \<Rightarrow> keyPath store_t = keyPath store"
    by (simp split: option.splits)
  then obtain store_t where "map_of (objectStores db_t) s = Some store_t"
    and "keyPath store_t = keyPath store"
    by (cases "map_of (objectStores db_t) s") simp_all
  with Some show ?thesis by (simp add: get_store_def)
qed

lemma restorable_version:
  assumes "restorable_into target d db" and "map_of (idb target) d = Some db_t"
  shows "db_version db_t = 1"
  using assms by (simp add: restorable_into_def)

lemma restorable_same:
  assumes "plain_database db" and "map_of (idb st1) d = Some db"
  shows "restorable_into st1 d db"
proof -
  have v: "db_version db = 1" and dist: "distinct (map fst (objectStores db))"
    using assms(1) by (simp_all add: plain_database_def)
  have "map_of (objectStores db) (fst p) = Some (snd p)" if "p \<in> set (objectStores db)" for p
    using that dist by simp
  then show ?thesis
    using v assms(2) by (simp add: restorable_into_def list_all_iff)
qed

lemma map_of_backup_of_database:
  assumes "map_of (spread (backup_of_database db)) s = Some v"
  shows "\<exists>store. map_of (objectStores db) s = Some store \<and> v = VArr (store_items store)"
proof -
  from assms have s: "s \<in> set (objectStoreNames db)"
    and v: "v = VArr (case map_of (objectStores db) s of
                        Some store \<Rightarrow> store_items store | None \<Rightarrow> [])"
    by (auto simp: backup_of_database_def object_of_map assigned_map_of split: if_splits)
  from s obtain store where "map_of (objectStores db) s = Some store"
    by (auto simp: objectStoreNames_iff)
  with v show ?thesis by simp
qed

lemma backup_of_database_store:
  assumes "map_of (objectStores db) s = Some store"
  shows "map_of (spread (backup_of_database db)) s = Some (VArr (store_items store))"
proof -
  from assms have "s \<in> set (objectStoreNames db)" by (simp add: objectStoreNames_iff)
  with assms show ?thesis
    by (simp add: backup_of_database_def object_of_map assigned_map_of)
qed

lemma distinct_backup_of_database: "distinct (map fst (spread (backup_of_database db)))"
  using assigned_distinct [of "[]"] by (simp add: backup_of_database_def object_of_map)

lemma restore_plain_backup:
  assumes hop: "''hasOwnProperty'' \<notin> set names"
    and plain: "\<forall>d \<in> set names. plain_database (database_of st d)"
    and into: "\<forall>d \<in> set names. restorable_into target d (database_of st d)"
  shows "\<exists>st2. restore_dbs (backup_of names st) (for_in_keys (backup_of names st)) target
                 = (Fulfilled (), st2)
           \<and> (\<forall>d \<in> set names. \<forall>s store.
                  get_store st d s = Some store \<longrightarrow>
                  (\<exists>store2. get_store st2 d s = Some store2
                     \<and> (\<forall>k. map_of (records store2) k
                            = (case map_of (records store) k of
                                 Some v \<Rightarrow> Some v
                               | None \<Rightarrow> (case get_store target d s of
                                             Some t \<Rightarrow> map_of (records t) k
                                           | None \<Rightarrow> None)))))"
proof -
  define f where "f d = backup_of_database (database_of st d)" for d
  define dbs where "dbs = foldl (\<lambda>acc d. set_property d (f d) acc) [] names"
  have pd: "backup_of names st = VObj dbs"
    by (simp add: backup_of_def object_of_map dbs_def f_def)
  have keys: "for_in_keys (backup_of names st) = map fst dbs" by (simp add: pd)
  have dist: "distinct (map fst dbs)" unfolding dbs_def using assigned_distinct [of "[]"] by simp
  have ks: "set (map fst dbs) = set names"
    unfolding dbs_def using assigned_names [of f "[]" names] by simp
  have nohop: "map_of dbs ''hasOwnProperty'' = None"
    unfolding dbs_def using hop by (simp add: assigned_map_of)
  have data: "map_of dbs d = Some (VObj (spread (backup_of_database (database_of st d))))"
    if "d \<in> set names" for d
    unfolding dbs_def using that by (simp add: assigned_map_of VObj_spread_backup f_def)
  have sdist: "distinct (map fst (spread (backup_of_database (database_of st d))))" for d
    by (rule distinct_backup_of_database)
  have puts: "\<exists>os os'. (if map_of (idb target) d = None then os = fresh_store
                        else get_store target d s = Some os)
               \<and> (case get_store target d s of Some t \<Rightarrow> t | None \<Rightarrow> fresh_store) = os
               \<and> (map_of (idb target) d = None \<or> get_store target d s \<noteq> None)
               \<and> put_every_item os (map restored_item (store_items store)) = Inr os'
               \<and> (\<forall>k. map_of (records os') k
                      = (case map_of (records store) k of
                           Some v \<Rightarrow> Some v
                         | None \<Rightarrow> (case get_store target d s of
                                       Some t \<Rightarrow> map_of (records t) k
                                     | None \<Rightarrow> None)))"
    if d: "d \<in> set names" and s: "map_of (objectStores (database_of st d)) s = Some store"
    for d s store
  proof -
    from s have mem: "(s, store) \<in> set (objectStores (database_of st d))" by (rule map_of_SomeD)
    from plain d have "plain_database (database_of st d)" by simp
    then have ps: "plain_store store" using mem by (rule plain_database_store)
    from into d have "restorable_into target d (database_of st d)" by simp
    from restorable_store [OF this mem] obtain os
      where a: "if map_of (idb target) d = None then os = fresh_store
                else get_store target d s = Some os"
        and b: "records store = [] \<or> keyPath os = keyPath store"
        and c: "(case get_store target d s of Some t \<Rightarrow> t | None \<Rightarrow> fresh_store) = os"
        and e: "map_of (idb target) d = None \<or> get_store target d s \<noteq> None"
        and f: "(case get_store target d s of Some t \<Rightarrow> map_of (records t) | None \<Rightarrow> Map.empty)
               = map_of (records os)"
      by blast
    from plain_store_put_any [OF ps b] obtain os'
      where p: "put_every_item os (map restored_item (store_items store)) = Inr os'"
        and l: "\<forall>k. map_of (records os') k
                  = (case map_of (records store) k of
                       Some v \<Rightarrow> Some v
                     | None \<Rightarrow> map_of (records os) k)"
      by blast
    have g: "(case get_store target d s of Some t \<Rightarrow> map_of (records t) k | None \<Rightarrow> None)
        = map_of (records os) k" for k
      using fun_cong [OF f, of k] by (simp split: option.splits)
    from a c e p l show ?thesis unfolding g by blast
  qed
  have "\<forall>d \<in> set (map fst dbs). \<exists>stores. map_of dbs d = Some (VObj stores) \<and> distinct (map fst stores)
           \<and> (\<forall>db. map_of (idb target) d = Some db \<longrightarrow> db_version db = 1)
           \<and> (\<forall>s v. map_of stores s = Some v \<longrightarrow>
                 (\<exists>items. v = VArr items \<and>
                    (items = [] \<or>
                     (\<exists>os os'. (if map_of (idb target) d = None then os = fresh_store
                                else get_store target d s = Some os)
                        \<and> put_every_item os (map restored_item items) = Inr os'))))"
  proof
    fix d assume "d \<in> set (map fst dbs)"
    with ks have d: "d \<in> set names" by simp
    let ?stores = "spread (backup_of_database (database_of st d))"
    from into d have ri: "restorable_into target d (database_of st d)" by simp
    have ver: "\<forall>db. map_of (idb target) d = Some db \<longrightarrow> db_version db = 1"
      using restorable_version [OF ri] by blast
    have "\<exists>items. v = VArr items \<and>
                    (items = [] \<or>
                     (\<exists>os os'. (if map_of (idb target) d = None then os = fresh_store
                                else get_store target d s = Some os)
                        \<and> put_every_item os (map restored_item items) = Inr os'))"
      if "map_of ?stores s = Some v" for s v
    proof -
      from map_of_backup_of_database [OF that] obtain store
        where s: "map_of (objectStores (database_of st d)) s = Some store"
          and v: "v = VArr (store_items store)" by blast
      from puts [OF d s] v show ?thesis by blast
    qed
    with data [OF d] sdist [of d] ver
    show "\<exists>stores. map_of dbs d = Some (VObj stores) \<and> distinct (map fst stores)
           \<and> (\<forall>db. map_of (idb target) d = Some db \<longrightarrow> db_version db = 1)
           \<and> (\<forall>s v. map_of stores s = Some v \<longrightarrow>
                 (\<exists>items. v = VArr items \<and>
                    (items = [] \<or>
                     (\<exists>os os'. (if map_of (idb target) d = None then os = fresh_store
                                else get_store target d s = Some os)
                        \<and> put_every_item os (map restored_item items) = Inr os'))))"
      by blast
  qed
  from restore_dbs_succeeds [OF dist nohop this]
  have "fst (restore_dbs (VObj dbs) (map fst dbs) target) = Fulfilled ()" .
  then obtain st2 where r: "restore_dbs (VObj dbs) (map fst dbs) target = (Fulfilled (), st2)"
    by (metis prod.collapse)
  have content: "\<exists>store2. get_store st2 d s = Some store2
           \<and> (\<forall>k. map_of (records store2) k
                  = (case map_of (records store) k of
                       Some v \<Rightarrow> Some v
                     | None \<Rightarrow> (case get_store target d s of
                                   Some t \<Rightarrow> map_of (records t) k
                                 | None \<Rightarrow> None)))"
    if d: "d \<in> set names" and g: "get_store st d s = Some store" for d s store
  proof -
    from g have s: "map_of (objectStores (database_of st d)) s = Some store"
      by (auto simp: get_store_def database_of_def split: option.splits)
    from puts [OF d s] obtain os os'
      where c: "(case get_store target d s of Some t \<Rightarrow> t | None \<Rightarrow> fresh_store) = os"
        and e: "map_of (idb target) d = None \<or> get_store target d s \<noteq> None"
        and p: "put_every_item os (map restored_item (store_items store)) = Inr os'"
        and l: "\<forall>k. map_of (records os') k
                      = (case map_of (records store) k of
                           Some v \<Rightarrow> Some v
                         | None \<Rightarrow> (case get_store target d s of
                                       Some t \<Rightarrow> map_of (records t) k
                                     | None \<Rightarrow> None))"
      by blast
    from restore_dbs_store [OF r dist data [OF d] sdist [of d] backup_of_database_store [OF s] e]
    obtain os2 where "put_every_item (case get_store target d s of Some os \<Rightarrow> os | None \<Rightarrow> fresh_store)
                  (map restored_item (store_items store)) = Inr os2"
      and g2: "get_store st2 d s = Some os2" by blast
    with c p have "os2 = os'" by simp
    with g2 l show ?thesis by blast
  qed
  have r': "restore_dbs (backup_of names st) (for_in_keys (backup_of names st)) target
      = (Fulfilled (), st2)"
    unfolding keys unfolding pd by (rule r)
  from r' content show ?thesis by blast
qed

lemma backup_then_restore_resolved:
  assumes "backup readable names st = (Fulfilled (Some jsonString), st1)"
  shows "backup_then_restore readable names st = restore jsonString st1"
  using assms by (simp add: backup_then_restore_def)




subsection \<open>DotCanvas: when addRandomLine returns\<close>

lemma random_index_lt: "0 \<le> r \<Longrightarrow> r < 1 \<Longrightarrow> 0 < n \<Longrightarrow> random_index r n < n"
proof -
  assume r: "0 \<le> r" "r < 1" and n: "0 < n"
  have "r * real n < real n" using r n by simp
  then have "\<lfloor>r * real n\<rfloor> < int n" by (simp add: floor_less_iff)
  moreover have "0 \<le> \<lfloor>r * real n\<rfloor>" using r by simp
  ultimately show ?thesis unfolding random_index_def by linarith
qed

lemma random_index_small: "0 \<le> r \<Longrightarrow> r < 1 \<Longrightarrow> n < 2 \<Longrightarrow> random_index r n = 0"
proof -
  assume r: "0 \<le> r" "r < 1" and n: "n < 2"
  have "n = 0 \<or> n = 1" using n by arith
  then show ?thesis
  proof
    assume "n = 0" then show ?thesis by (simp add: random_index_def)
  next
    assume "n = 1"
    then have "random_index r n < 1" using random_index_lt [OF r, of n] by simp
    then show ?thesis by simp
  qed
qed

lemma retry_index_Some:
  assumes "retry_index n i1 i2 rs = Some y"
  shows "fst y \<noteq> i1 \<and> (i2 \<noteq> i1 \<or> (\<exists>k. random_index (rs !! k) n \<noteq> i1))"
proof (rule retry_index.raw_induct
    [where P = "\<lambda>n i1 i2 rs y. fst y \<noteq> i1 \<and> (i2 \<noteq> i1 \<or> (\<exists>k. random_index (rs !! k) n \<noteq> i1))",
     OF _ assms])
  fix f :: "nat \<Rightarrow> nat \<Rightarrow> nat \<Rightarrow> real stream \<Rightarrow> (nat \<times> real stream) option"
  fix n i1 i2 rs y
  assume IH: "\<And>a b c d y. f a b c d = Some y \<Longrightarrow>
      fst y \<noteq> b \<and> (c \<noteq> b \<or> (\<exists>k. random_index (d !! k) a \<noteq> b))"
  assume eq: "(if i1 = i2 then f n i1 (random_index (shd rs) n) (stl rs) else Some (i2, rs)) = Some y"
  show "fst y \<noteq> i1 \<and> (i2 \<noteq> i1 \<or> (\<exists>k. random_index (rs !! k) n \<noteq> i1))"
  proof (cases "i1 = i2")
    case True
    with eq have "f n i1 (random_index (shd rs) n) (stl rs) = Some y"
      by simp
    from IH [OF this]
    have a: "fst y \<noteq> i1"
      and b: "random_index (shd rs) n \<noteq> i1 \<or> (\<exists>k. random_index (stl rs !! k) n \<noteq> i1)"
      by simp_all
    from b have "\<exists>k. random_index (rs !! k) n \<noteq> i1"
    proof
      assume "random_index (shd rs) n \<noteq> i1"
      then have "random_index (rs !! 0) n \<noteq> i1" by simp
      then show ?thesis by blast
    next
      assume "\<exists>k. random_index (stl rs !! k) n \<noteq> i1"
      then obtain k where "random_index (rs !! Suc k) n \<noteq> i1" by auto
      then show ?thesis by blast
    qed
    with a show ?thesis by simp
  next
    case False
    with eq show ?thesis by auto
  qed
qed

lemma retry_index_differ:
  "i1 \<noteq> i2 \<Longrightarrow> retry_index n i1 i2 rs = Some (i2, rs)"
  by (subst retry_index.simps) simp

lemma retry_index_step:
  "retry_index n i1 i1 rs = retry_index n i1 (random_index (shd rs) n) (stl rs)"
  by (subst retry_index.simps) simp

lemma retry_index_terminates:
  "random_index (rs !! k) n \<noteq> i1 \<Longrightarrow> \<exists>y. retry_index n i1 i2 rs = Some y"
proof (induction k arbitrary: rs i2)
  case 0
  show ?case
  proof (cases "i1 = i2")
    case True
    have "retry_index n i1 i2 rs = retry_index n i1 (random_index (shd rs) n) (stl rs)"
      using True retry_index_step by simp
    also have "\<dots> = Some (random_index (shd rs) n, stl rs)"
      using 0 by (simp add: retry_index_differ)
    finally show ?thesis by blast
  next
    case False
    then show ?thesis by (simp add: retry_index_differ)
  qed
next
  case (Suc k)
  show ?case
  proof (cases "i1 = i2")
    case True
    from Suc.prems have "random_index (stl rs !! k) n \<noteq> i1" by simp
    from Suc.IH [OF this]
    obtain y where "retry_index n i1 (random_index (shd rs) n) (stl rs) = Some y" by blast
    then show ?thesis using True retry_index_step by simp
  next
    case False
    then show ?thesis by (simp add: retry_index_differ)
  qed
qed

lemma retry_fuel_sound:
  "retry_fuel k n i1 i2 rs = Some y \<Longrightarrow> retry_index n i1 i2 rs = Some y"
proof (induction k arbitrary: i2 rs)
  case 0
  then show ?case by (auto simp: retry_index_differ split: if_splits)
next
  case (Suc k)
  show ?case
  proof (cases "i1 = i2")
    case True
    with Suc.prems have "retry_fuel k n i1 (random_index (shd rs) n) (stl rs) = Some y" by simp
    from Suc.IH [OF this] show ?thesis using True retry_index_step by simp
  next
    case False
    with Suc.prems show ?thesis by (auto simp: retry_index_differ)
  qed
qed

lemma retry_fuel_None:
  "retry_fuel k n i1 i2 rs = None \<longleftrightarrow>
   i2 = i1 \<and> (\<forall>j<k. random_index (rs !! j) n = i1)"
proof (induction k arbitrary: i2 rs)
  case 0
  then show ?case by auto
next
  case (Suc k)
  show ?case
  proof (cases "i1 = i2")
    case True
    have "(\<forall>j<Suc k. random_index (rs !! j) n = i1) \<longleftrightarrow>
          random_index (shd rs) n = i1 \<and> (\<forall>j<k. random_index (stl rs !! j) n = i1)"
      by (auto simp: less_Suc_eq_0_disj)
    with True Suc.IH show ?thesis by auto
  next
    case False
    then show ?thesis by auto
  qed
qed

lemma retry_index_range:
  assumes "retry_index n i1 i2 rs = Some y"
  shows "i2 < n \<and> (\<forall>k. random_index (rs !! k) n < n) \<longrightarrow> fst y < n"
proof (rule retry_index.raw_induct
    [where P = "\<lambda>n i1 i2 rs y. i2 < n \<and> (\<forall>k. random_index (rs !! k) n < n) \<longrightarrow> fst y < n",
     OF _ assms])
  fix f :: "nat \<Rightarrow> nat \<Rightarrow> nat \<Rightarrow> real stream \<Rightarrow> (nat \<times> real stream) option"
  fix n i1 i2 rs y
  assume IH: "\<And>a b c d y. f a b c d = Some y \<Longrightarrow>
      c < a \<and> (\<forall>k. random_index (d !! k) a < a) \<longrightarrow> fst y < a"
  assume eq: "(if i1 = i2 then f n i1 (random_index (shd rs) n) (stl rs) else Some (i2, rs)) = Some y"
  show "i2 < n \<and> (\<forall>k. random_index (rs !! k) n < n) \<longrightarrow> fst y < n"
  proof (intro impI, elim conjE)
    assume lt: "i2 < n" and all: "\<forall>k. random_index (rs !! k) n < n"
    show "fst y < n"
    proof (cases "i1 = i2")
      case True
      with eq have "f n i1 (random_index (shd rs) n) (stl rs) = Some y" by simp
      from IH [OF this]
      have imp: "random_index (shd rs) n < n \<and> (\<forall>k. random_index (stl rs !! k) n < n) \<longrightarrow> fst y < n" .
      have "random_index (rs !! 0) n < n" using all by blast
      then have h: "random_index (shd rs) n < n" by simp
      have "\<forall>k. random_index (rs !! Suc k) n < n" using all by blast
      then have "\<forall>k. random_index (stl rs !! k) n < n" by simp
      with h imp show ?thesis by blast
    next
      case False
      with eq lt show ?thesis by auto
    qed
  qed
qed

lemma getRandomColor_white: "fst (getRandomColor rs) = ''#ffffff''"
  by (simp add: getRandomColor_def split: prod.splits)

lemma scheduleNextLine_lines: "lines (fst (scheduleNextLine c rs)) = lines c"
  and scheduleNextLine_dots: "dots (fst (scheduleNextLine c rs)) = dots c"
  by (simp_all add: scheduleNextLine_def Let_def)

lemma addRandomLine_few_dots:
  assumes u: "unit_draws rs" and n: "length (dots c) < 2"
  shows "addRandomLine c rs = None"
proof -
  let ?n = "length (dots c)"
  have z: "random_index (rs !! k) ?n = 0" for k
    using u n random_index_small unfolding unit_draws_def by blast
  have z0: "random_index (shd rs) ?n = 0" using z [of 0] by simp
  have z1: "random_index (shd (stl rs)) ?n = 0" using z [of 1] by simp
  have "retry_index ?n 0 0 (stl (stl rs)) = None"
  proof (cases "retry_index ?n 0 0 (stl (stl rs))")
    case None
    then show ?thesis .
  next
    case (Some y)
    from retry_index_Some [OF Some]
    obtain k where "random_index (stl (stl rs) !! k) ?n \<noteq> 0" by blast
    then have "random_index (rs !! Suc (Suc k)) ?n \<noteq> 0" by simp
    with z [of "Suc (Suc k)"] show ?thesis by simp
  qed
  then show ?thesis
    by (simp add: addRandomLine_def Let_def z0 z1)
qed

lemma addRandomLine_returns_iff:
  "(\<exists>r. addRandomLine c rs = Some r) \<longleftrightarrow>
   (\<exists>k. random_index (rs !! Suc k) (length (dots c)) \<noteq> random_index (shd rs) (length (dots c)))"
proof -
  let ?n = "length (dots c)"
  let ?i1 = "random_index (shd rs) ?n"
  let ?i2 = "random_index (shd (stl rs)) ?n"
  let ?loop = "retry_index ?n ?i1 ?i2 (stl (stl rs))"
  have a: "(\<exists>r. addRandomLine c rs = Some r) \<longleftrightarrow> (\<exists>y. ?loop = Some y)"
    by (auto simp: addRandomLine_def Let_def split: option.splits prod.splits)
  have b: "(\<exists>y. ?loop = Some y) \<longleftrightarrow> (\<exists>k. random_index (rs !! Suc k) ?n \<noteq> ?i1)"
  proof
    assume "\<exists>y. ?loop = Some y"
    then obtain y where y: "?loop = Some y" ..
    from retry_index_Some [OF y]
    have "?i2 \<noteq> ?i1 \<or> (\<exists>k. random_index (stl (stl rs) !! k) ?n \<noteq> ?i1)" by simp
    then show "\<exists>k. random_index (rs !! Suc k) ?n \<noteq> ?i1"
    proof
      assume "?i2 \<noteq> ?i1"
      then have "random_index (rs !! Suc 0) ?n \<noteq> ?i1" by simp
      then show ?thesis by blast
    next
      assume "\<exists>k. random_index (stl (stl rs) !! k) ?n \<noteq> ?i1"
      then obtain k where "random_index (rs !! Suc (Suc k)) ?n \<noteq> ?i1" by auto
      then show ?thesis by blast
    qed
  next
    assume "\<exists>k. random_index (rs !! Suc k) ?n \<noteq> ?i1"
    then obtain k where k: "random_index (rs !! Suc k) ?n \<noteq> ?i1" ..
    show "\<exists>y. ?loop = Some y"
    proof (cases k)
      case 0
      with k have "?i2 \<noteq> ?i1" by simp
      then have "?i1 \<noteq> ?i2" by simp
      from retry_index_differ [OF this] show ?thesis by blast
    next
      case (Suc j)
      with k have "random_index (stl (stl rs) !! j) ?n \<noteq> ?i1" by simp
      from retry_index_terminates [OF this] show ?thesis .
    qed
  qed
  from a b show ?thesis by simp
qed

lemma addRandomLine_result:
  assumes u: "unit_draws rs" and r: "addRandomLine c rs = Some (c', rs')"
  shows "\<exists>i j. i < length (dots c) \<and> j < length (dots c) \<and> i \<noteq> j \<and>
           lines c' = (if 20 < length (lines c) then [] else lines c) @
             [\<lparr>dot1 = Some (dots c ! i), dot2 = Some (dots c ! j), line_color = ''#ffffff''\<rparr>] \<and>
           dots c' = dots c"
proof -
  let ?n = "length (dots c)"
  let ?i1 = "random_index (shd rs) ?n"
  let ?i2 = "random_index (shd (stl rs)) ?n"
  let ?loop = "retry_index ?n ?i1 ?i2 (stl (stl rs))"
  have two: "2 \<le> ?n"
  proof (rule ccontr)
    assume "\<not> 2 \<le> ?n"
    then have "?n < 2" by simp
    from addRandomLine_few_dots [OF u this] r show False by simp
  qed
  then have pos: "0 < ?n" by (cases "dots c") simp_all
  have lt: "random_index (rs !! k) ?n < ?n" for k
    using u pos random_index_lt unfolding unit_draws_def by blast
  obtain j rs1 where loop: "?loop = Some (j, rs1)"
    using r by (auto simp: addRandomLine_def Let_def split: option.splits prod.splits if_splits)
  have i1: "?i1 < ?n" using lt [of 0] by simp
  have i2: "?i2 < ?n" using lt [of 1] by simp
  have "\<forall>k. random_index (stl (stl rs) !! k) ?n < ?n"
  proof
    fix k show "random_index (stl (stl rs) !! k) ?n < ?n" using lt [of "Suc (Suc k)"] by simp
  qed
  with retry_index_range [OF loop] i2 have j: "j < ?n" by simp
  from retry_index_Some [OF loop] have ne: "?i1 \<noteq> j" by auto
  have c': "c' = fst (scheduleNextLine
      ((if 20 < length (lines c) then c\<lparr>lines := []\<rparr> else c)
        \<lparr>lines := lines (if 20 < length (lines c) then c\<lparr>lines := []\<rparr> else c) @
          [\<lparr>dot1 = nth_opt (dots c) ?i1, dot2 = nth_opt (dots c) j,
            line_color = fst (getRandomColor rs1)\<rparr>]\<rparr>)
      (snd (getRandomColor rs1)))"
    using r loop by (auto simp: addRandomLine_def Let_def split: prod.splits if_splits)
  have "lines c' = (if 20 < length (lines c) then [] else lines c) @
             [\<lparr>dot1 = Some (dots c ! ?i1), dot2 = Some (dots c ! j), line_color = ''#ffffff''\<rparr>]"
    unfolding c' scheduleNextLine_lines
    using i1 j by (simp add: nth_opt_def getRandomColor_white)
  moreover have "dots c' = dots c"
    unfolding c' scheduleNextLine_dots by simp
  ultimately show ?thesis using i1 j ne by blast
qed

lemma in_loop_after_iff:
  "in_loop_after k c rs \<longleftrightarrow>
     (\<forall>j\<le>k. random_index (rs !! Suc j) (length (dots c))
              = random_index (shd rs) (length (dots c)))"
proof -
  let ?n = "length (dots c)"
  let ?i1 = "random_index (shd rs) ?n"
  have "(\<forall>j\<le>k. random_index (rs !! Suc j) ?n = ?i1) \<longleftrightarrow>
        random_index (shd (stl rs)) ?n = ?i1 \<and> (\<forall>j<k. random_index (stl (stl rs) !! j) ?n = ?i1)"
  proof
    assume a: "\<forall>j\<le>k. random_index (rs !! Suc j) ?n = ?i1"
    then have "random_index (rs !! Suc 0) ?n = ?i1" by blast
    moreover have "\<forall>j<k. random_index (stl (stl rs) !! j) ?n = ?i1"
    proof (intro allI impI)
      fix j assume "j < k"
      then have "Suc j \<le> k" by simp
      with a have "random_index (rs !! Suc (Suc j)) ?n = ?i1" by blast
      then show "random_index (stl (stl rs) !! j) ?n = ?i1" by simp
    qed
    ultimately show "random_index (shd (stl rs)) ?n = ?i1
        \<and> (\<forall>j<k. random_index (stl (stl rs) !! j) ?n = ?i1)" by simp
  next
    assume b: "random_index (shd (stl rs)) ?n = ?i1
        \<and> (\<forall>j<k. random_index (stl (stl rs) !! j) ?n = ?i1)"
    show "\<forall>j\<le>k. random_index (rs !! Suc j) ?n = ?i1"
    proof (intro allI impI)
      fix j assume "j \<le> k"
      then show "random_index (rs !! Suc j) ?n = ?i1"
        using b by (cases j) auto
    qed
  qed
  then show ?thesis unfolding in_loop_after_def retry_fuel_None by simp
qed

subsection \<open>DotCanvas: the probability of staying in the loop\<close>

lemma set_grid: "set (grid N) = (\<lambda>j. real j / real N) ` {0..<N}"
  by (simp add: grid_def)

lemma distinct_grid: "distinct (grid N)"
proof -
  have "inj_on (\<lambda>j. real j / real N) {0..<N}"
    by (rule inj_onI) (auto simp: divide_simps)
  then show ?thesis by (simp add: grid_def distinct_map)
qed

lemma card_grid: "card (set (grid N)) = N"
  using distinct_card [OF distinct_grid, of N] by (simp add: grid_def)

lemma random_index_first: "random_index 0 n = 0"
  by (simp add: random_index_def)

lemma random_index_last:
  assumes "0 < n" and "n \<le> N"
  shows "random_index (real (N - 1) / real N) n = n - 1"
proof -
  have N: "0 < N" using assms by simp
  let ?x = "real (N - 1) / real N * real n"
  have lo: "real (n - 1) \<le> ?x"
  proof -
    have "(n - 1) * N \<le> (N - 1) * n" using assms N by (cases n; cases N) (simp_all add: algebra_simps)
    then have "real ((n - 1) * N) \<le> real ((N - 1) * n)" by (rule of_nat_mono)
    then have "real (n - 1) * real N \<le> real (N - 1) * real n" by simp
    then show ?thesis using N by (simp add: field_simps)
  qed
  have hi: "?x < real (n - 1) + 1"
  proof -
    have "real (N - 1) / real N < 1" using N by simp
    then have "?x < 1 * real n" using assms(1) by (intro mult_strict_right_mono) simp_all
    then show ?thesis using assms(1) by simp
  qed
  from lo hi have "\<lfloor>?x\<rfloor> = int (n - 1)" by (simp add: floor_eq_iff)
  then show ?thesis by (simp add: random_index_def)
qed

lemma same_index_card:
  assumes "2 \<le> n" and "n \<le> N"
  shows "card {x \<in> set (grid N). random_index x n = i} \<le> N - 1"
proof -
  have N: "2 \<le> N" using assms by simp
  have z: "0 \<in> set (grid N)" using N by (auto simp: set_grid intro: image_eqI [where x = 0])
  have l: "real (N - 1) / real N \<in> set (grid N)"
    using N by (auto simp: set_grid intro: image_eqI [where x = "N - 1"])
  have "random_index (real (N - 1) / real N) n = n - 1"
    using assms by (intro random_index_last) simp_all
  with assms(1) have "random_index (real (N - 1) / real N) n \<noteq> random_index 0 n"
    by (simp add: random_index_first)
  then obtain x where x: "x \<in> set (grid N)" and ne: "random_index x n \<noteq> i"
    using z l by metis
  have "{x \<in> set (grid N). random_index x n = i} \<subseteq> set (grid N) - {x}" using ne by auto
  then have "card {x \<in> set (grid N). random_index x n = i} \<le> card (set (grid N) - {x})"
    by (intro card_mono) simp_all
  also have "\<dots> = N - 1" using x by (simp add: card_grid)
  finally show ?thesis .
qed

lemma in_loop_draws:
  assumes "length ds = k + 2"
  shows "in_loop_after k c (ds @- s) \<longleftrightarrow>
     (\<forall>x \<in> set (tl ds). random_index x (length (dots c)) = random_index (hd ds) (length (dots c)))"
proof -
  let ?n = "length (dots c)"
  obtain r ds' where ds: "ds = r # ds'" and len: "length ds' = k + 1"
    using assms by (cases ds) simp_all
  have nth: "(ds @- s) !! Suc j = ds' ! j" if "j \<le> k" for j
    using that len by (simp add: ds shift_snth_less)
  have "(\<forall>j\<le>k. random_index ((ds @- s) !! Suc j) ?n = random_index r ?n)
      \<longleftrightarrow> (\<forall>x \<in> set ds'. random_index x ?n = random_index r ?n)"
  proof
    assume a: "\<forall>j\<le>k. random_index ((ds @- s) !! Suc j) ?n = random_index r ?n"
    show "\<forall>x \<in> set ds'. random_index x ?n = random_index r ?n"
    proof
      fix x assume "x \<in> set ds'"
      then obtain j where j: "j < length ds'" and x: "x = ds' ! j" by (auto simp: in_set_conv_nth)
      from j len have "j \<le> k" by simp
      with a nth x show "random_index x ?n = random_index r ?n" by metis
    qed
  next
    assume b: "\<forall>x \<in> set ds'. random_index x ?n = random_index r ?n"
    show "\<forall>j\<le>k. random_index ((ds @- s) !! Suc j) ?n = random_index r ?n"
    proof (intro allI impI)
      fix j assume j: "j \<le> k"
      with len have "ds' ! j \<in> set ds'" by simp
      with b nth [OF j] show "random_index ((ds @- s) !! Suc j) ?n = random_index r ?n" by simp
    qed
  qed
  then show ?thesis unfolding in_loop_after_iff by (simp add: ds)
qed

lemma in_loop_count:
  assumes "2 \<le> length (dots c)" and "length (dots c) \<le> N"
  shows "length (filter (\<lambda>ds. in_loop_after k c (ds @- s)) (List.n_lists (k + 2) (grid N)))
           \<le> N * (N - 1) ^ (k + 1)"
proof -
  let ?n = "length (dots c)"
  let ?G = "set (grid N)"
  let ?A = "\<lambda>r. {x \<in> ?G. random_index x ?n = random_index r ?n}"
  let ?L = "\<lambda>r. {ds'. set ds' \<subseteq> ?A r \<and> length ds' = k + 1}"
  let ?E = "{ds. in_loop_after k c (ds @- s)} \<inter> set (List.n_lists (k + 2) (grid N))"
  have fin: "finite (?A r)" for r by simp
  have sub: "?E \<subseteq> (\<Union>r \<in> ?G. (\<lambda>ds'. r # ds') ` ?L r)"
  proof
    fix ds assume "ds \<in> ?E"
    then have loop: "in_loop_after k c (ds @- s)" and len: "length ds = k + 2"
      and G: "set ds \<subseteq> ?G" by (auto simp: set_n_lists)
    obtain r ds' where ds: "ds = r # ds'" and len': "length ds' = k + 1"
      using len by (cases ds) simp_all
    from loop have "\<forall>x \<in> set ds'. random_index x ?n = random_index r ?n"
      unfolding in_loop_draws [OF len] by (simp add: ds)
    with G have "set ds' \<subseteq> ?A r" by (auto simp: ds)
    with len' have "ds' \<in> ?L r" by simp
    moreover have "r \<in> ?G" using G by (simp add: ds)
    ultimately show "ds \<in> (\<Union>r \<in> ?G. (\<lambda>ds'. r # ds') ` ?L r)" using ds by blast
  qed
  have finL: "finite (?L r)" for r by (rule finite_lists_length_eq) simp
  have finU: "finite (\<Union>r \<in> ?G. (\<lambda>ds'. r # ds') ` ?L r)"
    by (intro finite_UN_I finite_imageI finL) simp
  have "card ?E \<le> card (\<Union>r \<in> ?G. (\<lambda>ds'. r # ds') ` ?L r)"
    using finU sub by (rule card_mono)
  also have "\<dots> \<le> (\<Sum>r \<in> ?G. card ((\<lambda>ds'. r # ds') ` ?L r))"
    by (intro card_UN_le) simp
  also have "\<dots> \<le> (\<Sum>r \<in> ?G. (N - 1) ^ (k + 1))"
  proof (rule sum_mono)
    fix r assume "r \<in> ?G"
    have "card ((\<lambda>ds'. r # ds') ` ?L r) \<le> card (?L r)" by (intro card_image_le finL)
    also have "\<dots> = card (?A r) ^ (k + 1)" by (rule card_lists_length_eq) simp
    also have "\<dots> \<le> (N - 1) ^ (k + 1)"
      by (intro power_mono same_index_card assms) simp
    finally show "card ((\<lambda>ds'. r # ds') ` ?L r) \<le> (N - 1) ^ (k + 1)" .
  qed
  also have "\<dots> = N * (N - 1) ^ (k + 1)" by (simp add: card_grid)
  finally have "card ?E \<le> N * (N - 1) ^ (k + 1)" .
  moreover have "length (filter (\<lambda>ds. in_loop_after k c (ds @- s)) (List.n_lists (k + 2) (grid N)))
      = card ?E"
    by (intro distinct_length_filter distinct_n_lists distinct_grid)
  ultimately show ?thesis by simp
qed

lemma in_loop_probability:
  assumes "2 \<le> length (dots c)" and "length (dots c) \<le> N"
  shows "(\<lambda>k. probability N (k + 2) (\<lambda>ds. in_loop_after k c (ds @- s))) \<longlonglongrightarrow> 0"
proof -
  have N: "2 \<le> N" using assms by simp
  let ?q = "real (N - 1) / real N"
  let ?p = "\<lambda>k. probability N (k + 2) (\<lambda>ds. in_loop_after k c (ds @- s))"
  have q0: "0 \<le> ?q" by simp
  have q1: "?q < 1" using N by simp
  have up: "?p k \<le> ?q * ?q ^ k" for k
  proof -
    have "real (length (filter (\<lambda>ds. in_loop_after k c (ds @- s)) (List.n_lists (k + 2) (grid N))))
        \<le> real (N * (N - 1) ^ (k + 1))"
      using in_loop_count [OF assms, of k s] by (rule of_nat_mono)
    then have "?p k \<le> real (N * (N - 1) ^ (k + 1)) / real (N ^ (k + 2))"
      unfolding probability_def by (intro divide_right_mono) simp_all
    also have "\<dots> = ?q * ?q ^ k"
      using N by (simp add: power_divide field_simps)
    finally show ?thesis .
  qed
  have lo: "0 \<le> ?p k" for k by (simp add: probability_def)
  have "(\<lambda>k. ?q ^ k) \<longlonglongrightarrow> 0" using q0 q1 by (rule LIMSEQ_realpow_zero)
  then have "(\<lambda>k. ?q * ?q ^ k) \<longlonglongrightarrow> 0" by (rule tendsto_mult_right_zero)
  from tendsto_sandwich [OF _ _ tendsto_const this, of ?p] lo up show ?thesis
    by (simp add: eventually_sequentially)
qed

lemma addRandomLine_None_iff:
  assumes "2 \<le> length (dots c)"
  shows "addRandomLine c rs = None \<longleftrightarrow> (\<forall>k. in_loop_after k c rs)"
proof -
  let ?n = "length (dots c)"
  have "addRandomLine c rs = None \<longleftrightarrow> \<not> (\<exists>r. addRandomLine c rs = Some r)"
    by (cases "addRandomLine c rs") auto
  also have "\<dots> \<longleftrightarrow> (\<forall>k. random_index (rs !! Suc k) ?n = random_index (shd rs) ?n)"
    unfolding addRandomLine_returns_iff by simp
  also have "\<dots> \<longleftrightarrow> (\<forall>k. in_loop_after k c rs)"
    unfolding in_loop_after_iff by blast
  finally show ?thesis .
qed

text \<open>
  Claim C8. \<open>addRandomLine\<close> returns only when there are at least two dots. With fewer
  than two dots both indices are always 0 and the loop that redraws the second index never
  ends, whatever \<open>Math.random\<close> returns. With two or more dots the call returns exactly when
  some later draw gives an index other than the first one, and it then appends one line
  that joins two existing dots with different indices. It returns with probability 1: the
  call does not return exactly when it is still in its loop after \<open>k\<close> redraws, for every
  \<open>k\<close>; and when \<open>Math.random\<close> draws independently and uniformly from \<open>N\<close> numbers \<open>j/N\<close>,
  with \<open>N\<close> at least the number of dots, the probability that the call is still in its loop
  after \<open>k\<close> redraws tends to 0 as \<open>k\<close> grows.
\<close>

theorem addRandomLine_terminates_iff_two_dots:
  assumes "unit_draws rs"
  shows "(length (dots c) < 2 \<longrightarrow> addRandomLine c rs = None) \<and>
     (2 \<le> length (dots c) \<longrightarrow>
        ((\<exists>r. addRandomLine c rs = Some r) \<longleftrightarrow>
           (\<exists>k. random_index (rs !! Suc k) (length (dots c))
                  \<noteq> random_index (shd rs) (length (dots c)))) \<and>
        (\<forall>c' rs'. addRandomLine c rs = Some (c', rs') \<longrightarrow>
           (\<exists>i j. i < length (dots c) \<and> j < length (dots c) \<and> i \<noteq> j \<and>
              lines c' = (if 20 < length (lines c) then [] else lines c) @
                [\<lparr>dot1 = Some (dots c ! i), dot2 = Some (dots c ! j),
                  line_color = ''#ffffff''\<rparr>] \<and>
              dots c' = dots c)) \<and>
        (addRandomLine c rs = None \<longleftrightarrow> (\<forall>k. in_loop_after k c rs)) \<and>
        (length (dots c) \<le> N \<longrightarrow>
           (\<lambda>k. probability N (k + 2) (\<lambda>ds. in_loop_after k c (ds @- s))) \<longlonglongrightarrow> 0))"
proof (intro conjI impI allI)
  assume "length (dots c) < 2"
  with assms show "addRandomLine c rs = None" by (rule addRandomLine_few_dots)
next
  show "(\<exists>r. addRandomLine c rs = Some r) \<longleftrightarrow>
           (\<exists>k. random_index (rs !! Suc k) (length (dots c))
                  \<noteq> random_index (shd rs) (length (dots c)))"
    by (rule addRandomLine_returns_iff)
next
  fix c' rs' assume "addRandomLine c rs = Some (c', rs')"
  with assms show "\<exists>i j. i < length (dots c) \<and> j < length (dots c) \<and> i \<noteq> j \<and>
              lines c' = (if 20 < length (lines c) then [] else lines c) @
                [\<lparr>dot1 = Some (dots c ! i), dot2 = Some (dots c ! j),
                  line_color = ''#ffffff''\<rparr>] \<and>
              dots c' = dots c"
    by (rule addRandomLine_result)
next
  assume "2 \<le> length (dots c)"
  then show "addRandomLine c rs = None \<longleftrightarrow> (\<forall>k. in_loop_after k c rs)"
    by (rule addRandomLine_None_iff)
next
  assume "2 \<le> length (dots c)" and "length (dots c) \<le> N"
  then show "(\<lambda>k. probability N (k + 2) (\<lambda>ds. in_loop_after k c (ds @- s))) \<longlonglongrightarrow> 0"
    by (rule in_loop_probability)
qed

lemma unit_draws_example: "unit_draws draws_example"
  unfolding unit_draws_def draws_example_def
proof
  fix k
  show "0 \<le> (1/10 ## 2/10 ## 7/10 ## sconst (0::real)) !! k \<and> (1/10 ## 2/10 ## 7/10 ## sconst (0::real)) !! k < 1"
  proof (cases k)
    case 0 then show ?thesis by simp
  next
    case (Suc k1)
    show ?thesis
    proof (cases k1)
      case 0 with Suc show ?thesis by simp
    next
      case (Suc k2)
      show ?thesis
      proof (cases k2)
        case 0 with \<open>k = Suc k1\<close> \<open>k1 = Suc k2\<close> show ?thesis by simp
      next
        case (Suc k3)
        with \<open>k = Suc k1\<close> \<open>k1 = Suc k2\<close> show ?thesis by simp
      qed
    qed
  qed
qed

theorem addRandomLine_terminates_iff_two_dots_witness:
  "unit_draws draws_example \<and> length (dots canvas_one) < 2 \<and> 2 \<le> length (dots canvas_two) \<and>
   length (dots canvas_two) \<le> 9007199254740992 \<and>
   addRandomLine canvas_one draws_example = None \<and>
   (\<exists>r. addRandomLine canvas_two draws_example = Some r) \<and>
   (\<lambda>k. probability 9007199254740992 (k + 2)
          (\<lambda>ds. in_loop_after k canvas_two (ds @- sconst 0))) \<longlonglongrightarrow> 0"
proof -
  have one: "length (dots canvas_one) < 2" by (simp add: canvas_one_def canvas_two_def)
  have two: "2 \<le> length (dots canvas_two)" by (simp add: canvas_two_def)
  have len: "length (dots canvas_two) = 2" by (simp add: canvas_two_def)
  have big: "length (dots canvas_two) \<le> 9007199254740992" by (simp add: len)
  have "random_index (draws_example !! Suc 1) 2 \<noteq> random_index (shd draws_example) 2"
    by (simp add: draws_example_def random_index_def)
  then have ex: "\<exists>k. random_index (draws_example !! Suc k) (length (dots canvas_two))
                  \<noteq> random_index (shd draws_example) (length (dots canvas_two))"
    unfolding len by blast
  from addRandomLine_terminates_iff_two_dots [OF unit_draws_example, of canvas_one] one
  have a: "addRandomLine canvas_one draws_example = None" by blast
  from addRandomLine_terminates_iff_two_dots [OF unit_draws_example, of canvas_two] two ex
  have b: "\<exists>r. addRandomLine canvas_two draws_example = Some r" by blast
  from addRandomLine_terminates_iff_two_dots
    [OF unit_draws_example, of canvas_two 9007199254740992 "sconst 0"] two big
  have c: "(\<lambda>k. probability 9007199254740992 (k + 2)
          (\<lambda>ds. in_loop_after k canvas_two (ds @- sconst 0))) \<longlonglongrightarrow> 0" by blast
  from unit_draws_example one two big a b c show ?thesis by blast
qed

end
